theory Spec2Isabelle
  imports Main "HOL-Library.AList"
begin

section \<open>Data model\<close>

text \<open>
  \<^verbatim>\<open>models.SessionData\<close>: one keepalive task, stored in \<^verbatim>\<open>{data_dir}/{uuid}.json\<close>.
  Time stamps are seconds as integers; \<open>consecutive_failures\<close> carries the pydantic
  constraint \<^verbatim>\<open>ge=0\<close> in its type.
\<close>

record session_data =
  uuid :: string
  tg_id :: int
  session_string :: string
  notify_chat_id :: int
  consecutive_failures :: nat
  created_at :: int
  last_heartbeat :: "int option"

text \<open>\<^verbatim>\<open>session_manager.Config\<close>, the fields the manager reads.\<close>

record config =
  interval_seconds :: int
  jitter_seconds :: int
  max_failures :: int

text \<open>
  The exceptions that travel through the modelled code. \<open>PyException\<close> is a plain
  \<^verbatim>\<open>Exception(msg)\<close>; \<open>OSError\<close> stands for \<^verbatim>\<open>PermissionError\<close> and \<^verbatim>\<open>OSError\<close> of a
  failed file write.
\<close>

datatype error =
    FloodWaitError int
  | AuthKeyUnregisteredError
  | PhoneCodeInvalidError
  | PhoneCodeExpiredError
  | PasswordHashInvalidError
  | ValueError string
  | PyException string
  | OSError
  | ValidationError
  | KeyError string

text \<open>
  The reason strings handed to \<^verbatim>\<open>cleanup_task\<close>: the literal of \<^verbatim>\<open>create_task\<close> and
  \<^verbatim>\<open>initialize\<close> (replaced by a new task), the f-string of \<^verbatim>\<open>_handle_failure\<close> with the
  configured threshold, and any other text (the web layer's manual deletion).
\<close>

datatype reason =
    ReplacedByNewTask
  | ConsecutiveFailures int
  | OtherReason string

text \<open>The three messages of \<^verbatim>\<open>BotNotifier\<close>, each with its chat id and task uuid.\<close>

datatype notification =
    SendSuccess int string
  | SendFailure int string error
  | SendCleanup int string reason

text \<open>
  What the manager does to its collaborators, in the order it does it: messages handed
  to the notifier, files written and unlinked, scheduler jobs added (with the interval
  used) and removed, calls of a wrapped Telegram function and the sleeps of its wrapper.
\<close>

datatype event =
    Sent notification
  | FileWritten string
  | FileDeleted string
  | JobAdded string int
  | JobRemoved string
  | FuncCalled
  | Slept int

section \<open>Log redaction\<close>

text \<open>Python's \<^verbatim>\<open>data[:n]\<close>: a negative \<open>n\<close> counts from the end.\<close>

definition slice_to :: "int \<Rightarrow> 'a list \<Rightarrow> 'a list" where
  "slice_to n xs =
     (if 0 \<le> n then take (nat n) xs else take (length xs - nat (- n)) xs)"

text \<open>
  \<^verbatim>\<open>
  def mask_sensitive_data(data: str, visible_chars: int = 10) -> str:
      if not data:
          return ""
      if len(data) <= visible_chars:
          return data[:3] + "..."
      return data[:visible_chars] + "..."
  \<close>
  The same function is defined in \<^verbatim>\<open>session_manager.py\<close> and \<^verbatim>\<open>telegram_client.py\<close>.
\<close>

definition mask_sensitive_data :: "string \<Rightarrow> int \<Rightarrow> string" where
  "mask_sensitive_data data visible_chars =
     (if data = [] then []
      else if int (length data) \<le> visible_chars then slice_to 3 data @ ''...''
      else slice_to visible_chars data @ ''...'')"

text \<open>Every caller uses the default \<^verbatim>\<open>visible_chars=10\<close>.\<close>

definition mask_default :: "string \<Rightarrow> string" where
  "mask_default data = mask_sensitive_data data 10"

section \<open>The error-handling wrapper of the Telegram client\<close>

text \<open>
  \<^verbatim>\<open>
  async def wrapper(*args, **kwargs):
      try:
          return await func(*args, **kwargs)
      except FloodWaitError as e:
          await asyncio.sleep(e.seconds + 5)
          return await func(*args, **kwargs)
      except AuthKeyUnregisteredError:
          raise ValueError("Session expired or invalid")
      except PhoneCodeInvalidError:
          raise ValueError("Invalid verification code")
      except PhoneCodeExpiredError:
          raise ValueError("Verification code expired")
      except PasswordHashInvalidError:
          raise ValueError("Invalid 2FA password")
      except Exception as e:
          raise
  \<close>
  The wrapped coroutine function talks to Telegram, so its outcome is an input of the
  model: \<open>func n\<close> is what its \<open>n\<close>-th invocation (counted from 0) with the wrapper's
  arguments does, \<open>Inr v\<close> for a returned value and \<open>Inl e\<close> for a raised exception.
  The second call sits inside the first \<^verbatim>\<open>except\<close> clause, so whatever it raises leaves
  the wrapper as it is. The result comes with the calls and sleeps performed.
\<close>

definition handle_telegram_errors :: "(nat \<Rightarrow> error + 'a) \<Rightarrow> (error + 'a) \<times> event list" where
  "handle_telegram_errors func =
     (case func 0 of
        Inr v \<Rightarrow> (Inr v, [FuncCalled])
      | Inl (FloodWaitError seconds) \<Rightarrow>
          (func 1, [FuncCalled, Slept (seconds + 5), FuncCalled])
      | Inl AuthKeyUnregisteredError \<Rightarrow>
          (Inl (ValueError ''Session expired or invalid''), [FuncCalled])
      | Inl PhoneCodeInvalidError \<Rightarrow>
          (Inl (ValueError ''Invalid verification code''), [FuncCalled])
      | Inl PhoneCodeExpiredError \<Rightarrow>
          (Inl (ValueError ''Verification code expired''), [FuncCalled])
      | Inl PasswordHashInvalidError \<Rightarrow>
          (Inl (ValueError ''Invalid 2FA password''), [FuncCalled])
      | Inl e \<Rightarrow> (Inl e, [FuncCalled]))"

section \<open>The interval of the next heartbeat\<close>

text \<open>
  \<^verbatim>\<open>random.randint(a, b)\<close> returns an integer \<open>N\<close> with \<open>a \<le> N \<le> b\<close> and raises
  \<^verbatim>\<open>ValueError\<close> on an empty range. The generator's state is an input of the model: a
  natural number \<open>entropy\<close>, reduced into the range.
\<close>

definition randint :: "int \<Rightarrow> int \<Rightarrow> nat \<Rightarrow> error + int" where
  "randint a b entropy =
     (if b < a then Inl (ValueError ''empty range for randrange()'')
      else Inr (a + int (entropy mod nat (b - a + 1))))"

text \<open>
  \<^verbatim>\<open>
  def _calculate_next_interval(self) -> int:
      jitter = random.randint(0, self.config.jitter_seconds)
      interval = self.config.interval_seconds + jitter
      return interval
  \<close>
\<close>

definition calculate_next_interval :: "config \<Rightarrow> nat \<Rightarrow> error + int" where
  "calculate_next_interval cfg entropy =
     (case randint 0 (jitter_seconds cfg) entropy of
        Inl e \<Rightarrow> Inl e
      | Inr jitter \<Rightarrow> Inr (interval_seconds cfg + jitter))"

section \<open>The session manager\<close>

subsection \<open>State and environment\<close>

text \<open>
  A file of the data directory either parses and validates as a \<^verbatim>\<open>SessionData\<close>
  (\<^verbatim>\<open>_load_session_file\<close> returns it) or makes \<^verbatim>\<open>_load_session_file\<close> raise.
\<close>

datatype file_content = Valid session_data | Corrupt

text \<open>
  \<^verbatim>\<open>open(file_path, 'w')\<close> followed by \<^verbatim>\<open>json.dump\<close>: the write succeeds, or \<^verbatim>\<open>open\<close>
  raises and the file is as before, or the dump raises after \<^verbatim>\<open>open\<close> has truncated
  the file.
\<close>

datatype write_outcome = Written | Refused | Torn

text \<open>
  What one operation of the manager reads from outside: the clocks
  (\<^verbatim>\<open>datetime.utcnow()\<close>, \<^verbatim>\<open>datetime.now()\<close>), the value of \<^verbatim>\<open>uuid.uuid4()\<close>, for every
  file name whether writing and unlinking it succeed, and the random generator's state
  when the job of a given uuid is scheduled.
\<close>

record world =
  utcnow :: int
  localnow :: int
  uuid4 :: string
  write_result :: "string \<Rightarrow> write_outcome"
  unlink_ok :: "string \<Rightarrow> bool"
  entropy :: "string \<Rightarrow> nat"

text \<open>
  \<^verbatim>\<open>SessionManager\<close>: the two dictionaries, the \<^verbatim>\<open>*.json\<close> files of the data
  directory by stem in the order \<^verbatim>\<open>glob\<close> lists them, the scheduler's jobs by id with
  their run date, and the effects so far.
\<close>

record manager =
  sessions :: "string \<rightharpoonup> session_data"
  tg_id_to_uuid :: "int \<rightharpoonup> string"
  files :: "(string \<times> file_content) list"
  jobs :: "string \<rightharpoonup> int"
  trace :: "event list"

text \<open>\<^verbatim>\<open>SessionManager.__init__\<close> over a data directory holding \<open>fs\<close>.\<close>

definition new_manager :: "(string \<times> file_content) list \<Rightarrow> manager" where
  "new_manager fs =
     \<lparr>sessions = Map.empty, tg_id_to_uuid = Map.empty, files = fs,
      jobs = Map.empty, trace = []\<rparr>"

definition emit :: "event list \<Rightarrow> manager \<Rightarrow> manager" where
  "emit evs s = s\<lparr>trace := trace s @ evs\<rparr>"

subsection \<open>Files and jobs\<close>

text \<open>
  \<^verbatim>\<open>
  file_path = self.data_dir / f"{uuid}.json"
  try:
      if file_path.exists():
          file_path.unlink()
  except Exception as e:
      logger.error(...)
  \<close>
  This block occurs in \<^verbatim>\<open>cleanup_task\<close> and in \<^verbatim>\<open>initialize\<close>.
\<close>

definition unlink_file :: "world \<Rightarrow> manager \<Rightarrow> string \<Rightarrow> manager" where
  "unlink_file w s u =
     (case map_of (files s) u of
        None \<Rightarrow> s
      | Some _ \<Rightarrow>
          if unlink_ok w u
          then emit [FileDeleted u] (s\<lparr>files := AList.delete u (files s)\<rparr>)
          else s)"

text \<open>
  \<^verbatim>\<open>_save_session_file\<close> writes \<^verbatim>\<open>{session_data.uuid}.json\<close> through \<^verbatim>\<open>_write_json_file\<close>,
  which logs and re-raises every exception.
\<close>

definition save_session_file :: "world \<Rightarrow> manager \<Rightarrow> session_data \<Rightarrow> (error + unit) \<times> manager" where
  "save_session_file w s d =
     (case write_result w (uuid d) of
        Written \<Rightarrow>
          (Inr (), emit [FileWritten (uuid d)]
                     (s\<lparr>files := AList.update (uuid d) (Valid d) (files s)\<rparr>))
      | Refused \<Rightarrow> (Inl OSError, s)
      | Torn \<Rightarrow> (Inl OSError, s\<lparr>files := AList.update (uuid d) Corrupt (files s)\<rparr>))"

text \<open>
  \<^verbatim>\<open>scheduler.add_job(..., 'date', run_date=now + interval, id=uuid, replace_existing=True)\<close>
\<close>

definition add_job :: "world \<Rightarrow> manager \<Rightarrow> string \<Rightarrow> int \<Rightarrow> manager" where
  "add_job w s u interval =
     emit [JobAdded u interval] (s\<lparr>jobs := (jobs s)(u \<mapsto> localnow w + interval)\<rparr>)"

text \<open>
  \<^verbatim>\<open>
  async def start_heartbeat(self, uuid: str):
      if uuid not in self.sessions:
          return
      interval_seconds = self._calculate_next_interval()
      first_run_time = datetime.now() + timedelta(seconds=interval_seconds)
      self.scheduler.add_job(...)
  \<close>
\<close>

definition start_heartbeat :: "config \<Rightarrow> world \<Rightarrow> manager \<Rightarrow> string \<Rightarrow> (error + unit) \<times> manager" where
  "start_heartbeat cfg w s u =
     (case sessions s u of
        None \<Rightarrow> (Inr (), s)
      | Some _ \<Rightarrow>
          (case calculate_next_interval cfg (entropy w u) of
             Inl e \<Rightarrow> (Inl e, s)
           | Inr interval \<Rightarrow> (Inr (), add_job w s u interval)))"

text \<open>
  \<^verbatim>\<open>stop_heartbeat\<close>: \<^verbatim>\<open>scheduler.remove_job(uuid)\<close> raises for an unknown job id; the
  exception is caught and logged.
\<close>

definition stop_heartbeat :: "manager \<Rightarrow> string \<Rightarrow> manager" where
  "stop_heartbeat s u =
     (case jobs s u of
        None \<Rightarrow> s
      | Some _ \<Rightarrow> emit [JobRemoved u] (s\<lparr>jobs := (jobs s)(u := None)\<rparr>))"

subsection \<open>Cleanup\<close>

text \<open>
  \<^verbatim>\<open>
  async def cleanup_task(self, uuid: str, reason: str):
      if uuid not in self.sessions:
          logger.warning(...)
          return
      session_data = self.sessions[uuid]
      await self.bot_notifier.send_cleanup(session_data.notify_chat_id, uuid, reason)
      await self.stop_heartbeat(uuid)
      <unlink the file>
      del self.sessions[uuid]
      if session_data.tg_id in self.tg_id_to_uuid:
          if self.tg_id_to_uuid[session_data.tg_id] == uuid:
              del self.tg_id_to_uuid[session_data.tg_id]
  \<close>
  No path through it raises (the notifier catches its own exceptions and returns a
  flag), so the model returns the state alone.
\<close>

definition cleanup_task :: "world \<Rightarrow> manager \<Rightarrow> string \<Rightarrow> reason \<Rightarrow> manager" where
  "cleanup_task w s u r =
     (case sessions s u of
        None \<Rightarrow> s
      | Some d \<Rightarrow>
          let s1 = emit [Sent (SendCleanup (notify_chat_id d) u r)] s;
              s2 = stop_heartbeat s1 u;
              s3 = unlink_file w s2 u;
              s4 = s3\<lparr>sessions := (sessions s3)(u := None)\<rparr>
          in if tg_id_to_uuid s4 (tg_id d) = Some u
             then s4\<lparr>tg_id_to_uuid := (tg_id_to_uuid s4)(tg_id d := None)\<rparr>
             else s4)"

subsection \<open>Heartbeat\<close>

text \<open>
  \<^verbatim>\<open>
  async def _handle_success(self, uuid: str):
      session_data = self.sessions[uuid]
      session_data.consecutive_failures = 0
      session_data.last_heartbeat = datetime.utcnow()
      await self._save_session_file(session_data)
      await self.bot_notifier.send_success(session_data.notify_chat_id, uuid)
  \<close>
  The object in the dictionary is mutated in place, before the save.
\<close>

definition handle_success :: "world \<Rightarrow> manager \<Rightarrow> string \<Rightarrow> (error + unit) \<times> manager" where
  "handle_success w s u =
     (case sessions s u of
        None \<Rightarrow> (Inl (KeyError u), s)
      | Some d \<Rightarrow>
          let d' = d\<lparr>consecutive_failures := 0, last_heartbeat := Some (utcnow w)\<rparr>;
              s1 = s\<lparr>sessions := (sessions s)(u \<mapsto> d')\<rparr>
          in (case save_session_file w s1 d' of
                (Inl e, s2) \<Rightarrow> (Inl e, s2)
              | (Inr _, s2) \<Rightarrow>
                  (Inr (), emit [Sent (SendSuccess (notify_chat_id d') u)] s2)))"

text \<open>
  \<^verbatim>\<open>
  async def _handle_failure(self, uuid: str, error: Exception):
      session_data = self.sessions[uuid]
      session_data.consecutive_failures += 1
      await self._save_session_file(session_data)
      await self.bot_notifier.send_failure(session_data.notify_chat_id, uuid, str(error))
      if session_data.consecutive_failures >= self.config.max_failures:
          reason = f"... {self.config.max_failures} ..."
          await self.cleanup_task(uuid, reason)
  \<close>
\<close>

definition handle_failure :: "config \<Rightarrow> world \<Rightarrow> manager \<Rightarrow> string \<Rightarrow> error \<Rightarrow> (error + unit) \<times> manager" where
  "handle_failure cfg w s u err =
     (case sessions s u of
        None \<Rightarrow> (Inl (KeyError u), s)
      | Some d \<Rightarrow>
          let d' = d\<lparr>consecutive_failures := consecutive_failures d + 1\<rparr>;
              s1 = s\<lparr>sessions := (sessions s)(u \<mapsto> d')\<rparr>
          in (case save_session_file w s1 d' of
                (Inl e, s2) \<Rightarrow> (Inl e, s2)
              | (Inr _, s2) \<Rightarrow>
                  let s3 = emit [Sent (SendFailure (notify_chat_id d') u err)] s2
                  in if max_failures cfg \<le> int (consecutive_failures d')
                     then (Inr (), cleanup_task w s3 u (ConsecutiveFailures (max_failures cfg)))
                     else (Inr (), s3)))"

text \<open>
  \<^verbatim>\<open>
  async def execute_heartbeat(self, uuid: str):
      if uuid not in self.sessions:
          return
      session_data = self.sessions[uuid]
      try:
          success = await self.telegram_client.heartbeat(session_data.session_string)
          if success:
              await self._handle_success(uuid)
          else:
              await self._handle_failure(uuid, Exception("Heartbeat returned False"))
      except Exception as e:
          await self._handle_failure(uuid, e)
  \<close>
  \<^verbatim>\<open>heartbeat\<close> is wrapped by \<^verbatim>\<open>handle_telegram_errors\<close>; \<open>heartbeat n\<close> is the outcome
  of the \<open>n\<close>-th call of the unwrapped function. Both handlers run inside the
  \<^verbatim>\<open>try\<close>, so an exception of theirs reaches the \<^verbatim>\<open>except\<close> clause too.
\<close>

definition execute_heartbeat :: "config \<Rightarrow> world \<Rightarrow> (nat \<Rightarrow> error + bool) \<Rightarrow> manager \<Rightarrow> string \<Rightarrow> (error + unit) \<times> manager" where
  "execute_heartbeat cfg w heartbeat s u =
     (case sessions s u of
        None \<Rightarrow> (Inr (), s)
      | Some _ \<Rightarrow>
          let (r, evs) = handle_telegram_errors heartbeat;
              s1 = emit evs s
          in (case r of
                Inl e \<Rightarrow> handle_failure cfg w s1 u e
              | Inr success \<Rightarrow>
                  (case (if success then handle_success w s1 u
                         else handle_failure cfg w s1 u (PyException ''Heartbeat returned False'')) of
                     (Inl e, s2) \<Rightarrow> handle_failure cfg w s2 u e
                   | (Inr x, s2) \<Rightarrow> (Inr x, s2))))"

text \<open>
  \<^verbatim>\<open>
  async def _execute_heartbeat_and_reschedule(self, uuid: str):
      await self.execute_heartbeat(uuid)
      if uuid in self.sessions:
          interval_seconds = self._calculate_next_interval()
          next_run_time = datetime.now() + timedelta(seconds=interval_seconds)
          self.scheduler.add_job(...)
  \<close>
\<close>

definition execute_heartbeat_and_reschedule :: "config \<Rightarrow> world \<Rightarrow> (nat \<Rightarrow> error + bool) \<Rightarrow> manager \<Rightarrow> string \<Rightarrow> (error + unit) \<times> manager" where
  "execute_heartbeat_and_reschedule cfg w heartbeat s u =
     (case execute_heartbeat cfg w heartbeat s u of
        (Inl e, s1) \<Rightarrow> (Inl e, s1)
      | (Inr _, s1) \<Rightarrow>
          (case sessions s1 u of
             None \<Rightarrow> (Inr (), s1)
           | Some _ \<Rightarrow>
               (case calculate_next_interval cfg (entropy w u) of
                  Inl e \<Rightarrow> (Inl e, s1)
                | Inr interval \<Rightarrow> (Inr (), add_job w s1 u interval))))"

subsection \<open>Task creation\<close>

text \<open>
  The \<^verbatim>\<open>session_string\<close> validator of \<^verbatim>\<open>SessionData\<close> rejects \<^verbatim>\<open>not v or not v.strip()\<close>.
  Strings are sequences of code points below 256; \<^verbatim>\<open>str.strip\<close> removes the code
  points 9 to 13, 28 to 32, 133 and 160 among them.
\<close>

definition is_space :: "char \<Rightarrow> bool" where
  "is_space c = (of_char c \<in> set ([9, 10, 11, 12, 13, 28, 29, 30, 31, 32, 133, 160] :: nat list))"

definition blank :: "string \<Rightarrow> bool" where
  "blank v = list_all is_space v"

text \<open>
  The \<^verbatim>\<open>if tg_id in self.tg_id_to_uuid:\<close> block of \<^verbatim>\<open>create_task\<close>: the task the reverse
  index names for this \<^verbatim>\<open>tg_id\<close>, if any, is cleaned up.
\<close>

definition replace_existing :: "world \<Rightarrow> manager \<Rightarrow> int \<Rightarrow> manager" where
  "replace_existing w s tg =
     (case tg_id_to_uuid s tg of
        None \<Rightarrow> s
      | Some old_uuid \<Rightarrow> cleanup_task w s old_uuid ReplacedByNewTask)"

text \<open>
  \<^verbatim>\<open>
  async def create_task(self, session_string: str, notify_chat_id: int) -> str:
      account_info = await self.telegram_client.validate_session(session_string)
      tg_id = account_info['tg_id']
      if tg_id in self.tg_id_to_uuid:
          old_uuid = self.tg_id_to_uuid[tg_id]
          await self.cleanup_task(old_uuid, <replaced by new task>)
      task_uuid = str(uuid_module.uuid4())
      session_data = SessionData(uuid=task_uuid, tg_id=tg_id,
          session_string=session_string, notify_chat_id=notify_chat_id,
          consecutive_failures=0, created_at=datetime.utcnow(), last_heartbeat=None)
      await self._save_session_file(session_data)
      self.sessions[task_uuid] = session_data
      self.tg_id_to_uuid[tg_id] = task_uuid
      await self.start_heartbeat(task_uuid)
      return task_uuid
  \<close>
  \<^verbatim>\<open>validate_session\<close> is wrapped by \<^verbatim>\<open>handle_telegram_errors\<close>; \<open>validate n\<close> is the
  outcome of the \<open>n\<close>-th call of the unwrapped function, the account's \<^verbatim>\<open>tg_id\<close> when it
  returns. Nothing in \<^verbatim>\<open>create_task\<close> catches an exception.
\<close>

definition create_task :: "config \<Rightarrow> world \<Rightarrow> (nat \<Rightarrow> error + int) \<Rightarrow> manager \<Rightarrow> string \<Rightarrow> int \<Rightarrow> (error + string) \<times> manager" where
  "create_task cfg w validate s session chat =
     (let (r, evs) = handle_telegram_errors validate;
          s0 = emit evs s
      in (case r of
            Inl e \<Rightarrow> (Inl e, s0)
          | Inr tg \<Rightarrow>
              let s1 = replace_existing w s0 tg;
                  task_uuid = uuid4 w
              in if blank session then (Inl ValidationError, s1)
                 else
                   let d = \<lparr>uuid = task_uuid, tg_id = tg, session_string = session,
                            notify_chat_id = chat, consecutive_failures = 0,
                            created_at = utcnow w, last_heartbeat = None\<rparr>
                   in (case save_session_file w s1 d of
                         (Inl e, s2) \<Rightarrow> (Inl e, s2)
                       | (Inr _, s2) \<Rightarrow>
                           let s3 = s2\<lparr>sessions := (sessions s2)(task_uuid \<mapsto> d),
                                       tg_id_to_uuid := (tg_id_to_uuid s2)(tg \<mapsto> task_uuid)\<rparr>
                           in (case start_heartbeat cfg w s3 task_uuid of
                                 (Inl e, s4) \<Rightarrow> (Inl e, s4)
                               | (Inr _, s4) \<Rightarrow> (Inr task_uuid, s4)))))"

subsection \<open>Startup\<close>

text \<open>
  Phase 1 of \<^verbatim>\<open>initialize\<close>:
  \<^verbatim>\<open>
  all_sessions = {}
  for json_file in self.data_dir.glob("*.json"):
      try:
          session_data = self._load_session_file(json_file.stem)
          if session_data:
              all_sessions[session_data.uuid] = session_data
      except Exception as e:
          error_count += 1
  \<close>
  Dictionaries keep insertion order, and a key stored again keeps its place.
\<close>

definition load_all :: "(string \<times> file_content) list \<Rightarrow> (string \<times> session_data) list" where
  "load_all fs =
     fold (\<lambda>(stem, c) all_sessions.
             case c of
               Valid d \<Rightarrow> AList.update (uuid d) d all_sessions
             | Corrupt \<Rightarrow> all_sessions)
          fs []"

text \<open>
  Phase 2:
  \<^verbatim>\<open>
  tg_id_groups = {}
  for uuid, session_data in all_sessions.items():
      tg_id = session_data.tg_id
      if tg_id not in tg_id_groups:
          tg_id_groups[tg_id] = []
      tg_id_groups[tg_id].append((uuid, session_data.created_at))
  \<close>
\<close>

definition group_by_tg_id :: "(string \<times> session_data) list \<Rightarrow> (int \<times> (string \<times> int) list) list" where
  "group_by_tg_id all_sessions =
     fold (\<lambda>(u, d) groups.
             AList.map_default (tg_id d) [(u, created_at d)]
               (\<lambda>uuid_list. uuid_list @ [(u, created_at d)]) groups)
          all_sessions []"

text \<open>
  \<^verbatim>\<open>max(uuid_list, key=lambda x: x[1])\<close> keeps the first of several maximal items: the
  candidate changes only for a strictly greater key.
\<close>

fun max_by_created :: "string \<times> int \<Rightarrow> (string \<times> int) list \<Rightarrow> string \<times> int" where
  "max_by_created best [] = best"
| "max_by_created best (x # xs) = max_by_created (if snd best < snd x then x else best) xs"

text \<open>\<^verbatim>\<open>set.add\<close>; the model lists a set in the order its members arrived.\<close>

definition set_add :: "'a \<Rightarrow> 'a list \<Rightarrow> 'a list" where
  "set_add x xs = (if x \<in> set xs then xs else xs @ [x])"

text \<open>
  Phase 3, the body of the loop over \<^verbatim>\<open>tg_id_groups.items()\<close>:
  \<^verbatim>\<open>
  if len(uuid_list) == 1:
      tasks_to_keep.add(uuid_list[0][0])
  else:
      newest_uuid = max(uuid_list, key=lambda x: x[1])[0]
      tasks_to_keep.add(newest_uuid)
      for uuid, _ in uuid_list:
          if uuid != newest_uuid:
              tasks_to_delete.add(uuid)
  \<close>
  Phase 2 never stores an empty list (\<open>group_by_tg_id_nonempty\<close> below), so \<^verbatim>\<open>max\<close> is
  never called on one.
\<close>

fun select_group :: "(string \<times> int) list \<Rightarrow> string list \<times> string list \<Rightarrow> string list \<times> string list" where
  "select_group [] (tasks_to_keep, tasks_to_delete) = (tasks_to_keep, tasks_to_delete)"
| "select_group [x] (tasks_to_keep, tasks_to_delete) =
     (set_add (fst x) tasks_to_keep, tasks_to_delete)"
| "select_group (x # y # ys) (tasks_to_keep, tasks_to_delete) =
     (let newest_uuid = fst (max_by_created x (y # ys))
      in (set_add newest_uuid tasks_to_keep,
          fold (\<lambda>(u, _) del. if u \<noteq> newest_uuid then set_add u del else del)
               (x # y # ys) tasks_to_delete))"

definition select_tasks :: "(int \<times> (string \<times> int) list) list \<Rightarrow> string list \<times> string list" where
  "select_tasks tg_id_groups =
     fold (\<lambda>(tg, uuid_list). select_group uuid_list) tg_id_groups ([], [])"

text \<open>
  Phase 4, first loop:
  \<^verbatim>\<open>
  for uuid in tasks_to_keep:
      session_data = all_sessions[uuid]
      self.sessions[session_data.uuid] = session_data
      self.tg_id_to_uuid[session_data.tg_id] = session_data.uuid
      await self.start_heartbeat(session_data.uuid)
  \<close>
\<close>

fun admit_all :: "config \<Rightarrow> world \<Rightarrow> (string \<times> session_data) list \<Rightarrow> manager \<Rightarrow> string list \<Rightarrow> (error + unit) \<times> manager" where
  "admit_all cfg w all_sessions s [] = (Inr (), s)"
| "admit_all cfg w all_sessions s (u # us) =
     (case map_of all_sessions u of
        None \<Rightarrow> (Inl (KeyError u), s)
      | Some d \<Rightarrow>
          let s1 = s\<lparr>sessions := (sessions s)(uuid d \<mapsto> d),
                     tg_id_to_uuid := (tg_id_to_uuid s)(tg_id d \<mapsto> uuid d)\<rparr>
          in (case start_heartbeat cfg w s1 (uuid d) of
                (Inl e, s2) \<Rightarrow> (Inl e, s2)
              | (Inr _, s2) \<Rightarrow> admit_all cfg w all_sessions s2 us))"

text \<open>
  Phase 4, second loop:
  \<^verbatim>\<open>
  for uuid in tasks_to_delete:
      session_data = all_sessions[uuid]
      await self.bot_notifier.send_cleanup(session_data.notify_chat_id, uuid, <replaced>)
      <unlink the file>
  \<close>
\<close>

fun discard_all :: "world \<Rightarrow> (string \<times> session_data) list \<Rightarrow> manager \<Rightarrow> string list \<Rightarrow> (error + unit) \<times> manager" where
  "discard_all w all_sessions s [] = (Inr (), s)"
| "discard_all w all_sessions s (u # us) =
     (case map_of all_sessions u of
        None \<Rightarrow> (Inl (KeyError u), s)
      | Some d \<Rightarrow>
          discard_all w all_sessions
            (unlink_file w (emit [Sent (SendCleanup (notify_chat_id d) u ReplacedByNewTask)] s) u)
            us)"

definition initialize :: "config \<Rightarrow> world \<Rightarrow> manager \<Rightarrow> (error + unit) \<times> manager" where
  "initialize cfg w s =
     (let all_sessions = load_all (files s);
          (tasks_to_keep, tasks_to_delete) = select_tasks (group_by_tg_id all_sessions)
      in (case admit_all cfg w all_sessions s tasks_to_keep of
            (Inl e, s1) \<Rightarrow> (Inl e, s1)
          | (Inr _, s1) \<Rightarrow> discard_all w all_sessions s1 tasks_to_delete))"

section \<open>Notions used by the properties\<close>

text \<open>The uuids named by the cleanup notifications among some effects, in order.\<close>

fun cleanup_uuids :: "event list \<Rightarrow> string list" where
  "cleanup_uuids [] = []"
| "cleanup_uuids (Sent (SendCleanup chat u r) # evs) = u # cleanup_uuids evs"
| "cleanup_uuids (ev # evs) = cleanup_uuids evs"

text \<open>The success and failure notifications among some effects.\<close>

fun heartbeat_notifications :: "event list \<Rightarrow> notification list" where
  "heartbeat_notifications [] = []"
| "heartbeat_notifications (Sent (SendCleanup chat u r) # evs) = heartbeat_notifications evs"
| "heartbeat_notifications (Sent n # evs) = n # heartbeat_notifications evs"
| "heartbeat_notifications (ev # evs) = heartbeat_notifications evs"

text \<open>The intervals of the jobs added among some effects.\<close>

fun scheduled_intervals :: "event list \<Rightarrow> int list" where
  "scheduled_intervals [] = []"
| "scheduled_intervals (JobAdded u interval # evs) = interval # scheduled_intervals evs"
| "scheduled_intervals (ev # evs) = scheduled_intervals evs"

text \<open>The range \<^verbatim>\<open>[interval_seconds, interval_seconds + jitter_seconds]\<close>.\<close>

definition in_jitter_range :: "config \<Rightarrow> int \<Rightarrow> bool" where
  "in_jitter_range cfg interval =
     (interval_seconds cfg \<le> interval \<and> interval \<le> interval_seconds cfg + jitter_seconds cfg)"

text \<open>
  The jobs added between the states \<open>s\<close> and \<open>s'\<close> (the effects of \<open>s'\<close> extend those of
  \<open>s\<close>) all have their interval in the range.
\<close>

definition schedules_in_range :: "config \<Rightarrow> manager \<Rightarrow> manager \<Rightarrow> bool" where
  "schedules_in_range cfg s s' =
     (take (length (scheduled_intervals (trace s))) (scheduled_intervals (trace s'))
        = scheduled_intervals (trace s)
      \<and> list_all (in_jitter_range cfg)
          (drop (length (scheduled_intervals (trace s))) (scheduled_intervals (trace s'))))"

text \<open>
  Consecutive runs of \<^verbatim>\<open>execute_heartbeat\<close> for one task, each in its own environment
  and with its own outcome of the Telegram call.
\<close>

fun execute_heartbeats :: "config \<Rightarrow> (world \<times> (nat \<Rightarrow> error + bool)) list \<Rightarrow> manager \<Rightarrow> string \<Rightarrow> manager" where
  "execute_heartbeats cfg [] s u = s"
| "execute_heartbeats cfg ((w, heartbeat) # rest) s u =
     execute_heartbeats cfg rest (snd (execute_heartbeat cfg w heartbeat s u)) u"

text \<open>
  The wrapped \<^verbatim>\<open>heartbeat\<close> succeeded when it returned \<^verbatim>\<open>True\<close>; a \<^verbatim>\<open>False\<close> and every
  exception count as a failed heartbeat.
\<close>

definition heartbeat_succeeds :: "(nat \<Rightarrow> error + bool) \<Rightarrow> bool" where
  "heartbeat_succeeds heartbeat = (fst (handle_telegram_errors heartbeat) = Inr True)"

text \<open>The exception handed to \<^verbatim>\<open>_handle_failure\<close> after a failed heartbeat.\<close>

definition failure_of :: "(nat \<Rightarrow> error + bool) \<Rightarrow> error" where
  "failure_of heartbeat =
     (case fst (handle_telegram_errors heartbeat) of
        Inl e \<Rightarrow> e
      | Inr _ \<Rightarrow> PyException ''Heartbeat returned False'')"

text \<open>
  The uniqueness invariant: two live tasks with different uuids have different
  \<^verbatim>\<open>tg_id\<close>, and the reverse index sends the \<^verbatim>\<open>tg_id\<close> of every live task to that
  task's uuid.
\<close>

definition one_task_per_account :: "manager \<Rightarrow> bool" where
  "one_task_per_account s \<longleftrightarrow>
     (\<forall>u1 u2 d1 d2. sessions s u1 = Some d1 \<and> sessions s u2 = Some d2 \<and> u1 \<noteq> u2
        \<longrightarrow> tg_id d1 \<noteq> tg_id d2)
     \<and> (\<forall>u d. sessions s u = Some d \<longrightarrow> tg_id_to_uuid s (tg_id d) = Some u)"

text \<open>
  The states of a manager: constructed over any data directory, then any sequence of
  \<^verbatim>\<open>create_task\<close>, \<^verbatim>\<open>cleanup_task\<close> and fired heartbeat jobs, in any environment, and
  \<^verbatim>\<open>initialize\<close> while no task is live (the startup call of the web server runs it on
  the manager just constructed).
\<close>

inductive reachable :: "config \<Rightarrow> manager \<Rightarrow> bool" for cfg :: config where
  constructed: "reachable cfg (new_manager fs)"
| initialized:
    "reachable cfg s \<Longrightarrow> sessions s = Map.empty \<Longrightarrow> reachable cfg (snd (initialize cfg w s))"
| created:
    "reachable cfg s \<Longrightarrow> reachable cfg (snd (create_task cfg w validate s session chat))"
| cleaned:
    "reachable cfg s \<Longrightarrow> reachable cfg (cleanup_task w s u r)"
| fired:
    "reachable cfg s \<Longrightarrow>
     reachable cfg (snd (execute_heartbeat_and_reschedule cfg w heartbeat s u))"

text \<open>Every live task is stored under its own uuid.\<close>

definition keyed_by_uuid :: "manager \<Rightarrow> bool" where
  "keyed_by_uuid s \<longleftrightarrow> (\<forall>u d. sessions s u = Some d \<longrightarrow> uuid d = u)"

text \<open>
  The members of the group of \<open>tg\<close> among the loaded records, in loading order, each
  with its uuid and \<^verbatim>\<open>created_at\<close>.
\<close>

definition members_of :: "(string \<times> session_data) list \<Rightarrow> int \<Rightarrow> (string \<times> int) list" where
  "members_of all_sessions tg =
     map (\<lambda>(u, d). (u, created_at d)) (filter (\<lambda>(u, d). tg_id d = tg) all_sessions)"

text \<open>The uuid \<^verbatim>\<open>initialize\<close> keeps of a non-empty group.\<close>

definition newest_uuid :: "(string \<times> int) list \<Rightarrow> string" where
  "newest_uuid uuid_list = fst (max_by_created (hd uuid_list) (tl uuid_list))"

text \<open>
  One round of the first loop of phase 4 when nothing raises, and one round of the
  second loop, for a uuid whose loaded record is \<open>d\<close>.
\<close>

definition admit_one :: "config \<Rightarrow> world \<Rightarrow> manager \<Rightarrow> session_data \<Rightarrow> manager" where
  "admit_one cfg w s d =
     add_job w
       (s\<lparr>sessions := (sessions s)(uuid d \<mapsto> d),
          tg_id_to_uuid := (tg_id_to_uuid s)(tg_id d \<mapsto> uuid d)\<rparr>)
       (uuid d)
       (interval_seconds cfg + int (entropy w (uuid d) mod nat (jitter_seconds cfg + 1)))"

definition discard_one :: "world \<Rightarrow> manager \<Rightarrow> string \<Rightarrow> session_data \<Rightarrow> manager" where
  "discard_one w s u d =
     unlink_file w (emit [Sent (SendCleanup (notify_chat_id d) u ReplacedByNewTask)] s) u"

text \<open>The effects added between the states \<open>s\<close> and \<open>s'\<close>.\<close>

definition new_events :: "manager \<Rightarrow> manager \<Rightarrow> event list" where
  "new_events s s' = drop (length (trace s)) (trace s')"

fun is_job_added :: "event \<Rightarrow> bool" where
  "is_job_added (JobAdded u interval) = True"
| "is_job_added ev = False"

subsection \<open>Example values\<close>

definition example_config :: config where
  "example_config = \<lparr>interval_seconds = 86400, jitter_seconds = 300, max_failures = 3\<rparr>"

definition example_world :: world where
  "example_world =
     \<lparr>utcnow = 1000, localnow = 1000, uuid4 = ''c3'',
      write_result = (\<lambda>_. Written), unlink_ok = (\<lambda>_. True), entropy = (\<lambda>_. 7)\<rparr>"

definition task_a :: session_data where
  "task_a = \<lparr>uuid = ''a1'', tg_id = 42, session_string = ''1AQAAA'', notify_chat_id = 7,
             consecutive_failures = 0, created_at = 100, last_heartbeat = None\<rparr>"

definition task_b :: session_data where
  "task_b = \<lparr>uuid = ''b2'', tg_id = 42, session_string = ''1BQAAA'', notify_chat_id = 8,
             consecutive_failures = 0, created_at = 200, last_heartbeat = None\<rparr>"

text \<open>A manager with the one live task \<open>task_a\<close>, persisted and scheduled.\<close>

definition manager_a :: manager where
  "manager_a =
     \<lparr>sessions = [''a1'' \<mapsto> task_a], tg_id_to_uuid = [42 \<mapsto> ''a1''],
      files = [(''a1'', Valid task_a)], jobs = [''a1'' \<mapsto> 86500], trace = []\<rparr>"

definition world_unlink_fails :: world where
  "world_unlink_fails = example_world\<lparr>unlink_ok := (\<lambda>_. False)\<rparr>"

definition world_write_refused :: world where
  "world_write_refused = example_world\<lparr>write_result := (\<lambda>_. Refused)\<rparr>"

definition heartbeat_true :: "nat \<Rightarrow> error + bool" where
  "heartbeat_true n = Inr True"

definition heartbeat_false :: "nat \<Rightarrow> error + bool" where
  "heartbeat_false n = Inr False"

definition validate_unregistered :: "nat \<Rightarrow> error + int" where
  "validate_unregistered n = Inl AuthKeyUnregisteredError"

definition validate_42 :: "nat \<Rightarrow> error + int" where
  "validate_42 n = Inr 42"

definition task_late :: session_data where
  "task_late = task_a\<lparr>created_at := 2000\<rparr>"

definition task_c :: session_data where
  "task_c = \<lparr>uuid = ''c3'', tg_id = 42, session_string = ''1CQAAA'', notify_chat_id = 9,
             consecutive_failures = 0, created_at = 1000, last_heartbeat = None\<rparr>"

section \<open>Properties\<close>

subsection \<open>Field access through the small state transformers\<close>

lemma sessions_emit [simp]: "sessions (emit evs s) = sessions s"
  and tg_id_to_uuid_emit [simp]: "tg_id_to_uuid (emit evs s) = tg_id_to_uuid s"
  and files_emit [simp]: "files (emit evs s) = files s"
  and jobs_emit [simp]: "jobs (emit evs s) = jobs s"
  and trace_emit [simp]: "trace (emit evs s) = trace s @ evs"
  by (simp_all add: emit_def)

lemma stop_heartbeat_fields [simp]:
  "sessions (stop_heartbeat s u) = sessions s"
  "tg_id_to_uuid (stop_heartbeat s u) = tg_id_to_uuid s"
  "files (stop_heartbeat s u) = files s"
  "jobs (stop_heartbeat s u) = (jobs s)(u := None)"
  by (auto simp add: stop_heartbeat_def split: option.splits)

lemma unlink_file_fields [simp]:
  "sessions (unlink_file w s u) = sessions s"
  "tg_id_to_uuid (unlink_file w s u) = tg_id_to_uuid s"
  "jobs (unlink_file w s u) = jobs s"
  by (simp_all add: unlink_file_def split: option.splits)

lemma unlink_file_failed: "\<not> unlink_ok w u \<Longrightarrow> unlink_file w s u = s"
  by (simp add: unlink_file_def split: option.splits)

subsection \<open>Redaction\<close>

text \<open>
  C8. The claim: for every non-empty credential the masked output shows a proper prefix
  of one fixed length followed by the ellipsis, never the whole credential. The code
  shows the whole of a credential of at most three characters, and it has two prefix
  lengths, 3 and 10. What holds: a credential of more than three characters is shown as
  a proper prefix followed by \<^verbatim>\<open>...\<close>, the first 3 characters when it has at most 10 and
  the first 10 otherwise.
\<close>

theorem mask_reveals_proper_prefix:
  assumes "3 < length s"
  shows "mask_sensitive_data s 10 = take (if length s \<le> 10 then 3 else 10) s @ ''...''
       \<and> length (take (if length s \<le> 10 then 3 else 10) s) < length s"
  using assms by (auto simp add: mask_sensitive_data_def slice_to_def)

theorem mask_reveals_proper_prefix_witness:
  "3 < length ''abcd'' \<and> mask_sensitive_data ''abcd'' 10 = ''abc...''
   \<and> mask_sensitive_data ''0123456789ab'' 10 = ''0123456789...''"
  using mask_reveals_proper_prefix [of "''abcd''"]
    mask_reveals_proper_prefix [of "''0123456789ab''"]
  by simp

text \<open>
  The three-character credential \<^verbatim>\<open>abc\<close> is logged whole, and credentials of 4 and of
  12 characters are logged with prefixes of different lengths.
\<close>

theorem mask_short_input_shown_whole:
  "mask_sensitive_data ''abc'' 10 = ''abc'' @ ''...''
   \<and> mask_sensitive_data ''abcd'' 10 = take 3 ''abcd'' @ ''...''
   \<and> mask_sensitive_data ''0123456789ab'' 10 = take 10 ''0123456789ab'' @ ''...''"
  by (simp add: mask_sensitive_data_def slice_to_def)

subsection \<open>The retry after a flood wait\<close>

text \<open>
  C6. When the first call of the wrapped function raises \<^verbatim>\<open>FloodWaitError\<close> with
  \<open>t\<close> seconds, the wrapper sleeps \<open>t + 5\<close> seconds and calls the function once more;
  what the caller gets is the outcome of that second call, a value or an exception, a
  second \<^verbatim>\<open>FloodWaitError\<close> included: there are two calls and one sleep, never more.
\<close>

theorem flood_wait_retried_once:
  assumes "func 0 = Inl (FloodWaitError t)"
  shows "handle_telegram_errors func = (func 1, [FuncCalled, Slept (t + 5), FuncCalled])"
  using assms by (simp add: handle_telegram_errors_def)

theorem flood_wait_retried_once_witness:
  "handle_telegram_errors
     (\<lambda>n. if n = 0 then Inl (FloodWaitError 30) else (Inl (FloodWaitError 60) :: error + bool))
   = (Inl (FloodWaitError 60), [FuncCalled, Slept 35, FuncCalled])"
  using flood_wait_retried_once
    [of "\<lambda>n. if n = 0 then Inl (FloodWaitError 30) else (Inl (FloodWaitError 60) :: error + bool)" 30]
  by simp

subsection \<open>The jittered interval\<close>

lemma randint_range:
  assumes "randint a b e = Inr n"
  shows "a \<le> n \<and> n \<le> b"
proof (cases "b < a")
  case True
  with assms show ?thesis by (simp add: randint_def)
next
  case False
  then have "0 < nat (b - a + 1)" by simp
  then have "e mod nat (b - a + 1) < nat (b - a + 1)" by (rule mod_less_divisor)
  then have "int (e mod nat (b - a + 1)) < b - a + 1" by linarith
  moreover from assms False have "n = a + int (e mod nat (b - a + 1))"
    by (simp add: randint_def)
  ultimately show ?thesis by simp
qed

lemma randint_attains: "a \<le> n \<Longrightarrow> n \<le> b \<Longrightarrow> randint a b (nat (n - a)) = Inr n"
  by (simp add: randint_def)

lemma calculate_next_interval_range:
  assumes "calculate_next_interval cfg e = Inr iv"
  shows "interval_seconds cfg \<le> iv \<and> iv \<le> interval_seconds cfg + jitter_seconds cfg"
proof -
  from assms obtain j where j: "randint 0 (jitter_seconds cfg) e = Inr j"
    and iv: "iv = interval_seconds cfg + j"
    by (auto simp add: calculate_next_interval_def split: sum.splits)
  from j have "0 \<le> j \<and> j \<le> jitter_seconds cfg" by (rule randint_range)
  with iv show ?thesis by simp
qed

lemma calculate_next_interval_attains:
  "0 \<le> j \<Longrightarrow> j \<le> jitter_seconds cfg \<Longrightarrow>
   calculate_next_interval cfg (nat j) = Inr (interval_seconds cfg + j)"
  using randint_attains [of 0 j "jitter_seconds cfg"]
  by (simp add: calculate_next_interval_def)

subsection \<open>Cleanup\<close>

lemma cleanup_task_absent: "sessions s u = None \<Longrightarrow> cleanup_task w s u r = s"
  by (simp add: cleanup_task_def)

lemma cleanup_task_sessions:
  "sessions (cleanup_task w s u r) = (sessions s)(u := None)"
  by (auto simp add: cleanup_task_def Let_def split: option.splits)

lemma cleanup_task_tg_id_to_uuid:
  "tg_id_to_uuid (cleanup_task w s u r) =
     (case sessions s u of
        None \<Rightarrow> tg_id_to_uuid s
      | Some d \<Rightarrow> if tg_id_to_uuid s (tg_id d) = Some u
                  then (tg_id_to_uuid s)(tg_id d := None) else tg_id_to_uuid s)"
  by (simp add: cleanup_task_def Let_def split: option.splits)

text \<open>
  C9. Cleaning up a uuid that is not in \<^verbatim>\<open>sessions\<close> returns the manager as it was: no
  notification, no job removed, no file unlinked, nothing added to the effects. So a
  second \<^verbatim>\<open>cleanup_task\<close> of the same uuid, whatever its reason and environment, changes
  nothing after the first. The function has no raising path (it returns a state).
\<close>

theorem cleanup_task_idempotent:
  "(sessions s u = None \<longrightarrow> cleanup_task w s u r = s)
   \<and> cleanup_task w' (cleanup_task w s u r) u r' = cleanup_task w s u r"
proof
  show "sessions s u = None \<longrightarrow> cleanup_task w s u r = s"
    by (simp add: cleanup_task_absent)
  have "sessions (cleanup_task w s u r) u = None"
    by (simp add: cleanup_task_sessions)
  then show "cleanup_task w' (cleanup_task w s u r) u r' = cleanup_task w s u r"
    by (rule cleanup_task_absent)
qed

theorem cleanup_task_idempotent_witness:
  "sessions (new_manager []) ''6f1c'' = None
   \<and> cleanup_task example_world (new_manager []) ''6f1c'' ReplacedByNewTask = new_manager []"
  using cleanup_task_idempotent [of "new_manager []" "''6f1c''" example_world ReplacedByNewTask]
  by (simp add: new_manager_def)

text \<open>
  C10. When unlinking the file of a live task fails, \<^verbatim>\<open>cleanup_task\<close> still removes the
  task from \<^verbatim>\<open>sessions\<close>, removes the \<^verbatim>\<open>tg_id_to_uuid\<close> entry when it points at this uuid,
  and returns; the files of the data directory are as before, so the record stays on
  disk without a live task.
\<close>

theorem cleanup_task_unlink_failure:
  assumes "sessions s u = Some d" and "\<not> unlink_ok w u"
  shows "sessions (cleanup_task w s u r) = (sessions s)(u := None)
       \<and> tg_id_to_uuid (cleanup_task w s u r) =
           (if tg_id_to_uuid s (tg_id d) = Some u
            then (tg_id_to_uuid s)(tg_id d := None) else tg_id_to_uuid s)
       \<and> files (cleanup_task w s u r) = files s"
  using assms
  by (simp add: cleanup_task_sessions cleanup_task_tg_id_to_uuid)
     (simp add: cleanup_task_def Let_def unlink_file_failed)

theorem cleanup_task_unlink_failure_witness:
  "sessions (cleanup_task world_unlink_fails manager_a ''a1'' (OtherReason ''manual'')) ''a1'' = None
   \<and> tg_id_to_uuid (cleanup_task world_unlink_fails manager_a ''a1'' (OtherReason ''manual'')) 42 = None
   \<and> files (cleanup_task world_unlink_fails manager_a ''a1'' (OtherReason ''manual''))
       = [(''a1'', Valid task_a)]"
  using cleanup_task_unlink_failure
    [of manager_a "''a1''" task_a world_unlink_fails "OtherReason ''manual''"]
  by (simp add: manager_a_def task_a_def world_unlink_fails_def example_world_def)

subsection \<open>What the effects contain\<close>

lemma cleanup_uuids_append [simp]: "cleanup_uuids (xs @ ys) = cleanup_uuids xs @ cleanup_uuids ys"
  by (induction xs rule: cleanup_uuids.induct) simp_all

lemma heartbeat_notifications_append [simp]:
  "heartbeat_notifications (xs @ ys) = heartbeat_notifications xs @ heartbeat_notifications ys"
  by (induction xs rule: heartbeat_notifications.induct) simp_all

lemma scheduled_intervals_append [simp]:
  "scheduled_intervals (xs @ ys) = scheduled_intervals xs @ scheduled_intervals ys"
  by (induction xs rule: scheduled_intervals.induct) simp_all

lemma handle_telegram_errors_events:
  "snd (handle_telegram_errors func) = [FuncCalled]
   \<or> (\<exists>t. snd (handle_telegram_errors func) = [FuncCalled, Slept t, FuncCalled])"
  by (simp add: handle_telegram_errors_def split: sum.splits error.splits)

lemma handle_telegram_errors_quiet [simp]:
  "cleanup_uuids (snd (handle_telegram_errors func)) = []"
  "heartbeat_notifications (snd (handle_telegram_errors func)) = []"
  "scheduled_intervals (snd (handle_telegram_errors func)) = []"
  using handle_telegram_errors_events [of func] by auto

lemma stop_heartbeat_trace [simp]:
  "cleanup_uuids (trace (stop_heartbeat s u)) = cleanup_uuids (trace s)"
  "heartbeat_notifications (trace (stop_heartbeat s u)) = heartbeat_notifications (trace s)"
  "scheduled_intervals (trace (stop_heartbeat s u)) = scheduled_intervals (trace s)"
  by (simp_all add: stop_heartbeat_def split: option.splits)

lemma unlink_file_trace [simp]:
  "cleanup_uuids (trace (unlink_file w s u)) = cleanup_uuids (trace s)"
  "heartbeat_notifications (trace (unlink_file w s u)) = heartbeat_notifications (trace s)"
  "scheduled_intervals (trace (unlink_file w s u)) = scheduled_intervals (trace s)"
  by (simp_all add: unlink_file_def split: option.splits)

lemma unlink_file_gone:
  "unlink_ok w u \<Longrightarrow> map_of (files (unlink_file w s u)) u = None"
  by (simp add: unlink_file_def AList.delete_conv' split: option.splits)

lemma cleanup_task_trace:
  assumes "sessions s u = Some d"
  shows "cleanup_uuids (trace (cleanup_task w s u r)) = cleanup_uuids (trace s) @ [u]"
    and "heartbeat_notifications (trace (cleanup_task w s u r)) = heartbeat_notifications (trace s)"
    and "scheduled_intervals (trace (cleanup_task w s u r)) = scheduled_intervals (trace s)"
  using assms by (simp_all add: cleanup_task_def Let_def)

lemma cleanup_task_file_gone:
  assumes "sessions s u = Some d" and "unlink_ok w u"
  shows "map_of (files (cleanup_task w s u r)) u = None"
  using assms by (simp add: cleanup_task_def Let_def unlink_file_gone)

subsection \<open>Creation with an invalid credential\<close>

lemma handle_telegram_errors_invalid:
  assumes "func 0 = Inl AuthKeyUnregisteredError \<or> func 0 = Inl (ValueError msg)"
  shows "handle_telegram_errors func =
    (Inl (if func 0 = Inl AuthKeyUnregisteredError then ValueError ''Session expired or invalid'' else ValueError msg), [FuncCalled])"
  using assms by (auto simp add: handle_telegram_errors_def)

lemma create_task_raises:
  assumes "handle_telegram_errors validate = (Inl e, evs)"
  shows "create_task cfg w validate s session chat = (Inl e, emit evs s)"
  using assms by (simp add: create_task_def)

text \<open>
  C5. Whatever exception the wrapped \<^verbatim>\<open>validate_session\<close> raises, \<^verbatim>\<open>create_task\<close> raises
  the same exception and creates nothing: \<^verbatim>\<open>sessions\<close> with every failure counter in it,
  \<^verbatim>\<open>tg_id_to_uuid\<close>, the files and the jobs are as before, and the only effects are the
  calls (and sleep) of the wrapper. When the first call finds the credential invalid
  (Telegram raises \<^verbatim>\<open>AuthKeyUnregisteredError\<close>, which the wrapper turns into
  \<^verbatim>\<open>ValueError("Session expired or invalid")\<close>, or the function itself raises
  \<^verbatim>\<open>ValueError\<close>), the wrapper raises after that single call: no sleep, no second call.
\<close>

theorem create_task_invalid_credential:
  "(fst (handle_telegram_errors validate) = Inl e \<longrightarrow>
      fst (create_task cfg w validate s session chat) = Inl e
    \<and> sessions (snd (create_task cfg w validate s session chat)) = sessions s
    \<and> tg_id_to_uuid (snd (create_task cfg w validate s session chat)) = tg_id_to_uuid s
    \<and> files (snd (create_task cfg w validate s session chat)) = files s
    \<and> jobs (snd (create_task cfg w validate s session chat)) = jobs s
    \<and> trace (snd (create_task cfg w validate s session chat))
        = trace s @ snd (handle_telegram_errors validate))
   \<and> (validate 0 = Inl AuthKeyUnregisteredError \<or> validate 0 = Inl (ValueError msg) \<longrightarrow>
      handle_telegram_errors validate =
        (Inl (if validate 0 = Inl AuthKeyUnregisteredError
              then ValueError ''Session expired or invalid'' else ValueError msg),
         [FuncCalled]))"
proof
  show "fst (handle_telegram_errors validate) = Inl e \<longrightarrow>
      fst (create_task cfg w validate s session chat) = Inl e
    \<and> sessions (snd (create_task cfg w validate s session chat)) = sessions s
    \<and> tg_id_to_uuid (snd (create_task cfg w validate s session chat)) = tg_id_to_uuid s
    \<and> files (snd (create_task cfg w validate s session chat)) = files s
    \<and> jobs (snd (create_task cfg w validate s session chat)) = jobs s
    \<and> trace (snd (create_task cfg w validate s session chat))
        = trace s @ snd (handle_telegram_errors validate)"
  proof
    assume "fst (handle_telegram_errors validate) = Inl e"
    then have h: "handle_telegram_errors validate = (Inl e, snd (handle_telegram_errors validate))"
      by (cases "handle_telegram_errors validate") simp
    have "create_task cfg w validate s session chat
            = (Inl e, emit (snd (handle_telegram_errors validate)) s)"
      using h by (rule create_task_raises)
    then show "fst (create_task cfg w validate s session chat) = Inl e
      \<and> sessions (snd (create_task cfg w validate s session chat)) = sessions s
      \<and> tg_id_to_uuid (snd (create_task cfg w validate s session chat)) = tg_id_to_uuid s
      \<and> files (snd (create_task cfg w validate s session chat)) = files s
      \<and> jobs (snd (create_task cfg w validate s session chat)) = jobs s
      \<and> trace (snd (create_task cfg w validate s session chat))
          = trace s @ snd (handle_telegram_errors validate)"
      by simp
  qed
  show "validate 0 = Inl AuthKeyUnregisteredError \<or> validate 0 = Inl (ValueError msg) \<longrightarrow>
      handle_telegram_errors validate =
        (Inl (if validate 0 = Inl AuthKeyUnregisteredError
              then ValueError ''Session expired or invalid'' else ValueError msg),
         [FuncCalled])"
    by (rule impI) (rule handle_telegram_errors_invalid)
qed

theorem create_task_invalid_credential_witness:
  "fst (create_task example_config example_world validate_unregistered manager_a ''1CQAAA'' 9)
     = Inl (ValueError ''Session expired or invalid'')
   \<and> sessions (snd (create_task example_config example_world validate_unregistered manager_a ''1CQAAA'' 9))
     = sessions manager_a
   \<and> tg_id_to_uuid (snd (create_task example_config example_world validate_unregistered manager_a ''1CQAAA'' 9))
     = tg_id_to_uuid manager_a
   \<and> files (snd (create_task example_config example_world validate_unregistered manager_a ''1CQAAA'' 9))
     = [(''a1'', Valid task_a)]
   \<and> trace (snd (create_task example_config example_world validate_unregistered manager_a ''1CQAAA'' 9))
     = [FuncCalled]"
proof -
  have h: "handle_telegram_errors validate_unregistered
             = (Inl (ValueError ''Session expired or invalid''), [FuncCalled])"
    using create_task_invalid_credential [of validate_unregistered _ _ _ _ _ _ "[]"]
    by (simp add: validate_unregistered_def)
  show ?thesis
    using create_task_invalid_credential
      [of validate_unregistered "ValueError ''Session expired or invalid''" example_config
          example_world manager_a "''1CQAAA''" 9] h
    by (simp add: manager_a_def)
qed

subsection \<open>A successful heartbeat\<close>

lemma save_session_file_written:
  "write_result w (uuid d) = Written \<Longrightarrow>
   save_session_file w s d =
     (Inr (), emit [FileWritten (uuid d)] (s\<lparr>files := AList.update (uuid d) (Valid d) (files s)\<rparr>))"
  by (simp add: save_session_file_def)

lemma handle_success_written:
  assumes "sessions s u = Some d" and "write_result w (uuid d) = Written"
  shows "handle_success w s u =
     (Inr (), s\<lparr>sessions := (sessions s)(u \<mapsto> d\<lparr>consecutive_failures := 0, last_heartbeat := Some (utcnow w)\<rparr>),
                files := AList.update (uuid d) (Valid (d\<lparr>consecutive_failures := 0, last_heartbeat := Some (utcnow w)\<rparr>)) (files s),
                trace := trace s @ [FileWritten (uuid d), Sent (SendSuccess (notify_chat_id d) u)]\<rparr>)"
  using assms
  by (simp add: handle_success_def Let_def save_session_file_written emit_def)

lemma execute_heartbeat_success:
  assumes "sessions s u = Some d"
    and "heartbeat_succeeds heartbeat"
    and "write_result w (uuid d) = Written"
  shows "execute_heartbeat cfg w heartbeat s u =
     (Inr (), s\<lparr>sessions := (sessions s)(u \<mapsto> d\<lparr>consecutive_failures := 0, last_heartbeat := Some (utcnow w)\<rparr>),
                files := AList.update (uuid d) (Valid (d\<lparr>consecutive_failures := 0, last_heartbeat := Some (utcnow w)\<rparr>)) (files s),
                trace := trace s @ snd (handle_telegram_errors heartbeat)
                           @ [FileWritten (uuid d), Sent (SendSuccess (notify_chat_id d) u)]\<rparr>)"
proof -
  obtain evs where h: "handle_telegram_errors heartbeat = (Inr True, evs)"
    using assms(2) by (cases "handle_telegram_errors heartbeat") (simp add: heartbeat_succeeds_def)
  have "sessions (emit evs s) u = Some d" using assms(1) by simp
  then have "handle_success w (emit evs s) u =
     (Inr (), (emit evs s)\<lparr>sessions := (sessions (emit evs s))(u \<mapsto> d\<lparr>consecutive_failures := 0, last_heartbeat := Some (utcnow w)\<rparr>),
                files := AList.update (uuid d) (Valid (d\<lparr>consecutive_failures := 0, last_heartbeat := Some (utcnow w)\<rparr>)) (files (emit evs s)),
                trace := trace (emit evs s) @ [FileWritten (uuid d), Sent (SendSuccess (notify_chat_id d) u)]\<rparr>)"
    using assms(3) by (rule handle_success_written)
  with h assms(1) show ?thesis
    by (simp add: execute_heartbeat_def emit_def)
qed

text \<open>
  C4. The claim: after every heartbeat that returns true the handler resets the counter,
  stamps \<^verbatim>\<open>last_heartbeat\<close>, persists the task and notifies success, so the counter is 0
  afterwards. \<^verbatim>\<open>_handle_success\<close> runs inside the \<^verbatim>\<open>try\<close> of \<^verbatim>\<open>execute_heartbeat\<close>
  and raises what the save raises: then nothing is persisted or notified and the
  \<^verbatim>\<open>except\<close> clause counts a failure. What holds: when the task's file can be written,
  a heartbeat that returns true leaves the task with counter 0 and \<^verbatim>\<open>last_heartbeat\<close>
  the current time, whatever the counter was, writes that record to the task's file and
  then sends the success notification; \<^verbatim>\<open>execute_heartbeat\<close> returns normally.
\<close>

theorem heartbeat_success_resets:
  assumes "sessions s u = Some d"
    and "heartbeat_succeeds heartbeat"
    and "write_result w (uuid d) = Written"
  shows "fst (execute_heartbeat cfg w heartbeat s u) = Inr ()
       \<and> sessions (snd (execute_heartbeat cfg w heartbeat s u))
           = (sessions s)(u \<mapsto> d\<lparr>consecutive_failures := 0, last_heartbeat := Some (utcnow w)\<rparr>)
       \<and> files (snd (execute_heartbeat cfg w heartbeat s u))
           = AList.update (uuid d)
               (Valid (d\<lparr>consecutive_failures := 0, last_heartbeat := Some (utcnow w)\<rparr>)) (files s)
       \<and> trace (snd (execute_heartbeat cfg w heartbeat s u))
           = trace s @ snd (handle_telegram_errors heartbeat)
               @ [FileWritten (uuid d), Sent (SendSuccess (notify_chat_id d) u)]
       \<and> tg_id_to_uuid (snd (execute_heartbeat cfg w heartbeat s u)) = tg_id_to_uuid s
       \<and> jobs (snd (execute_heartbeat cfg w heartbeat s u)) = jobs s"
  using execute_heartbeat_success [OF assms, of cfg] by simp

theorem heartbeat_success_resets_witness:
  "fst (execute_heartbeat example_config example_world heartbeat_true
          (manager_a\<lparr>sessions := [''a1'' \<mapsto> task_a\<lparr>consecutive_failures := 2\<rparr>]\<rparr>) ''a1'') = Inr ()
   \<and> sessions (snd (execute_heartbeat example_config example_world heartbeat_true
          (manager_a\<lparr>sessions := [''a1'' \<mapsto> task_a\<lparr>consecutive_failures := 2\<rparr>]\<rparr>) ''a1'')) ''a1''
       = Some (task_a\<lparr>consecutive_failures := 0, last_heartbeat := Some 1000\<rparr>)
   \<and> trace (snd (execute_heartbeat example_config example_world heartbeat_true
          (manager_a\<lparr>sessions := [''a1'' \<mapsto> task_a\<lparr>consecutive_failures := 2\<rparr>]\<rparr>) ''a1''))
       = [FuncCalled, FileWritten ''a1'', Sent (SendSuccess 7 ''a1'')]"
proof -
  have t: "heartbeat_succeeds heartbeat_true"
    by (simp add: heartbeat_succeeds_def handle_telegram_errors_def heartbeat_true_def)
  have ev: "snd (handle_telegram_errors heartbeat_true) = [FuncCalled]"
    by (simp add: handle_telegram_errors_def heartbeat_true_def)
  have l: "sessions (manager_a\<lparr>sessions := [''a1'' \<mapsto> task_a\<lparr>consecutive_failures := 2\<rparr>]\<rparr>) ''a1''
             = Some (task_a\<lparr>consecutive_failures := 2\<rparr>)"
    by simp
  have wr: "write_result example_world (uuid (task_a\<lparr>consecutive_failures := 2\<rparr>)) = Written"
    by (simp add: example_world_def)
  show ?thesis
    using heartbeat_success_resets [OF l t wr, of example_config] ev
    by (simp add: manager_a_def task_a_def example_world_def)
qed

text \<open>
  The heartbeat returns true and the write is refused: \<^verbatim>\<open>execute_heartbeat\<close> raises, the
  counter of the task is 1, its file is untouched and no success notification is sent.
\<close>

theorem storage_error_after_success_counts_as_failure:
  "fst (execute_heartbeat example_config world_write_refused heartbeat_true manager_a ''a1'')
     = Inl OSError
   \<and> sessions (snd (execute_heartbeat example_config world_write_refused heartbeat_true manager_a ''a1'')) ''a1''
     = Some (task_a\<lparr>consecutive_failures := 1, last_heartbeat := Some 1000\<rparr>)
   \<and> files (snd (execute_heartbeat example_config world_write_refused heartbeat_true manager_a ''a1''))
     = [(''a1'', Valid task_a)]
   \<and> heartbeat_notifications (trace (snd (execute_heartbeat example_config world_write_refused heartbeat_true manager_a ''a1'')))
     = []"
  by (simp add: execute_heartbeat_def handle_telegram_errors_def heartbeat_true_def
      handle_failure_def handle_success_def save_session_file_def emit_def Let_def
      manager_a_def task_a_def example_config_def example_world_def world_write_refused_def)

subsection \<open>Failed heartbeats and the threshold\<close>

lemma handle_failure_written:
  assumes "sessions s u = Some d" and "write_result w (uuid d) = Written"
  shows "handle_failure cfg w s u err =
     (Inr (),
      let s3 = s\<lparr>sessions := (sessions s)(u \<mapsto> d\<lparr>consecutive_failures := consecutive_failures d + 1\<rparr>),
                 files := AList.update (uuid d) (Valid (d\<lparr>consecutive_failures := consecutive_failures d + 1\<rparr>)) (files s),
                 trace := trace s @ [FileWritten (uuid d), Sent (SendFailure (notify_chat_id d) u err)]\<rparr>
      in if max_failures cfg \<le> int (consecutive_failures d + 1)
         then cleanup_task w s3 u (ConsecutiveFailures (max_failures cfg)) else s3)"
  using assms
  by (simp add: handle_failure_def Let_def save_session_file_written emit_def)

lemma execute_heartbeat_failure:
  assumes "sessions s u = Some d" and "\<not> heartbeat_succeeds heartbeat"
    and "write_result w (uuid d) = Written"
  shows "execute_heartbeat cfg w heartbeat s u =
     handle_failure cfg w (emit (snd (handle_telegram_errors heartbeat)) s) u (failure_of heartbeat)"
proof (cases "handle_telegram_errors heartbeat")
  case (Pair r evs)
  have live: "sessions (emit evs s) u = Some d" using assms(1) by simp
  show ?thesis
  proof (cases r)
    case (Inl e)
    with Pair assms(1) show ?thesis
      by (simp add: execute_heartbeat_def failure_of_def)
  next
    case (Inr b)
    with Pair assms(2) have "\<not> b" by (simp add: heartbeat_succeeds_def)
    with Pair Inr assms(1) handle_failure_written [OF live assms(3)] show ?thesis
      by (simp add: execute_heartbeat_def failure_of_def)
  qed
qed

text \<open>One failed heartbeat below the threshold.\<close>

lemma failed_heartbeat_counts:
  assumes "sessions s u = Some d" and "\<not> heartbeat_succeeds heartbeat"
    and "write_result w (uuid d) = Written"
    and "int (consecutive_failures d + 1) < max_failures cfg"
  shows "sessions (snd (execute_heartbeat cfg w heartbeat s u)) u =
           Some (d\<lparr>consecutive_failures := consecutive_failures d + 1\<rparr>)"
    and "cleanup_uuids (trace (snd (execute_heartbeat cfg w heartbeat s u))) = cleanup_uuids (trace s)"
proof -
  have live: "sessions (emit (snd (handle_telegram_errors heartbeat)) s) u = Some d"
    using assms(1) by simp
  note step = execute_heartbeat_failure [OF assms(1,2,3), of cfg]
    handle_failure_written [OF live assms(3), of cfg "failure_of heartbeat"]
  show "sessions (snd (execute_heartbeat cfg w heartbeat s u)) u =
           Some (d\<lparr>consecutive_failures := consecutive_failures d + 1\<rparr>)"
    using step assms(4) by simp
  show "cleanup_uuids (trace (snd (execute_heartbeat cfg w heartbeat s u))) = cleanup_uuids (trace s)"
    using step assms(4) by simp
qed

text \<open>The failed heartbeat that reaches the threshold.\<close>

lemma failed_heartbeat_cleans_up:
  assumes "sessions s u = Some d" and "\<not> heartbeat_succeeds heartbeat"
    and "write_result w (uuid d) = Written"
    and "max_failures cfg \<le> int (consecutive_failures d + 1)"
  shows "sessions (snd (execute_heartbeat cfg w heartbeat s u)) u = None"
    and "cleanup_uuids (trace (snd (execute_heartbeat cfg w heartbeat s u))) = cleanup_uuids (trace s) @ [u]"
    and "unlink_ok w u \<Longrightarrow> map_of (files (snd (execute_heartbeat cfg w heartbeat s u))) u = None"
proof -
  let ?d = "d\<lparr>consecutive_failures := consecutive_failures d + 1\<rparr>"
  let ?s3 = "(emit (snd (handle_telegram_errors heartbeat)) s)
     \<lparr>sessions := (sessions (emit (snd (handle_telegram_errors heartbeat)) s))(u \<mapsto> ?d),
      files := AList.update (uuid d) (Valid ?d) (files (emit (snd (handle_telegram_errors heartbeat)) s)),
      trace := trace (emit (snd (handle_telegram_errors heartbeat)) s)
                 @ [FileWritten (uuid d), Sent (SendFailure (notify_chat_id d) u (failure_of heartbeat))]\<rparr>"
  have live: "sessions (emit (snd (handle_telegram_errors heartbeat)) s) u = Some d"
    using assms(1) by simp
  have run: "snd (execute_heartbeat cfg w heartbeat s u)
             = cleanup_task w ?s3 u (ConsecutiveFailures (max_failures cfg))"
    using execute_heartbeat_failure [OF assms(1,2,3), of cfg]
      handle_failure_written [OF live assms(3), of cfg "failure_of heartbeat"] assms(4)
    by (simp add: Let_def)
  have live3: "sessions ?s3 u = Some ?d" by simp
  show "sessions (snd (execute_heartbeat cfg w heartbeat s u)) u = None"
    by (simp only: run cleanup_task_sessions) simp
  show "cleanup_uuids (trace (snd (execute_heartbeat cfg w heartbeat s u))) = cleanup_uuids (trace s) @ [u]"
    by (simp only: run cleanup_task_trace(1) [OF live3]) simp
  show "unlink_ok w u \<Longrightarrow> map_of (files (snd (execute_heartbeat cfg w heartbeat s u))) u = None"
    by (simp only: run cleanup_task_file_gone [OF live3])
qed

text \<open>
  C2. The claim: with \<^verbatim>\<open>max_failures = 3\<close>, the third consecutive failed heartbeat removes
  the task from \<^verbatim>\<open>sessions\<close>, deletes its file and sends exactly one cleanup
  notification; two failures followed by a success leave the task live with counter 0.
  A file that cannot be unlinked survives the cleanup (the exception is caught and
  logged), and a save that raises leaves the handler before it notifies or cleans up.
  What holds, for a live task stored under its own uuid (as every live task of a
  reachable state is, \<open>reachable_keyed_by_uuid\<close>) with counter 0 and three
  consecutive runs in each of which its file can be written: the counter is 1 after the
  first failure and 2 after the second; a third failure removes the task from
  \<^verbatim>\<open>sessions\<close> and adds exactly one cleanup notification, for this uuid, and when the
  unlink does not fail the file is gone; a success in the third run instead leaves the
  task live with counter 0, persisted, and no cleanup notification.
\<close>

theorem three_failures_then_cleanup:
  assumes "max_failures cfg = 3"
    and "sessions s u = Some d" and "uuid d = u" and "consecutive_failures d = 0"
    and "\<not> heartbeat_succeeds hb1" and "\<not> heartbeat_succeeds hb2"
    and "write_result w1 u = Written" and "write_result w2 u = Written"
    and "write_result w3 u = Written"
  shows "sessions (execute_heartbeats cfg [(w1, hb1)] s u) u = Some (d\<lparr>consecutive_failures := 1\<rparr>)
       \<and> sessions (execute_heartbeats cfg [(w1, hb1), (w2, hb2)] s u) u
           = Some (d\<lparr>consecutive_failures := 2\<rparr>)
       \<and> (\<not> heartbeat_succeeds hb3 \<longrightarrow>
            sessions (execute_heartbeats cfg [(w1, hb1), (w2, hb2), (w3, hb3)] s u) u = None
          \<and> cleanup_uuids (trace (execute_heartbeats cfg [(w1, hb1), (w2, hb2), (w3, hb3)] s u))
              = cleanup_uuids (trace s) @ [u]
          \<and> (unlink_ok w3 u \<longrightarrow>
               map_of (files (execute_heartbeats cfg [(w1, hb1), (w2, hb2), (w3, hb3)] s u)) u
                 = None))
       \<and> (heartbeat_succeeds hb3 \<longrightarrow>
            sessions (execute_heartbeats cfg [(w1, hb1), (w2, hb2), (w3, hb3)] s u) u
              = Some (d\<lparr>consecutive_failures := 0, last_heartbeat := Some (utcnow w3)\<rparr>)
          \<and> map_of (files (execute_heartbeats cfg [(w1, hb1), (w2, hb2), (w3, hb3)] s u)) u
              = Some (Valid (d\<lparr>consecutive_failures := 0, last_heartbeat := Some (utcnow w3)\<rparr>))
          \<and> cleanup_uuids (trace (execute_heartbeats cfg [(w1, hb1), (w2, hb2), (w3, hb3)] s u))
              = cleanup_uuids (trace s))"
proof -
  let ?s1 = "snd (execute_heartbeat cfg w1 hb1 s u)"
  let ?s2 = "snd (execute_heartbeat cfg w2 hb2 ?s1 u)"
  let ?s3 = "snd (execute_heartbeat cfg w3 hb3 ?s2 u)"
  let ?d1 = "d\<lparr>consecutive_failures := 1\<rparr>"
  let ?d2 = "d\<lparr>consecutive_failures := 2\<rparr>"
  have wr1: "write_result w1 (uuid d) = Written" using assms(3,7) by simp
  have below1: "int (consecutive_failures d + 1) < max_failures cfg" using assms(1,4) by simp
  have live1: "sessions ?s1 u = Some ?d1"
    using failed_heartbeat_counts(1) [OF assms(2,5) wr1 below1] assms(4) by simp
  have tr1: "cleanup_uuids (trace ?s1) = cleanup_uuids (trace s)"
    by (rule failed_heartbeat_counts(2) [OF assms(2,5) wr1 below1])
  have wr2: "write_result w2 (uuid ?d1) = Written" using assms(3,8) by simp
  have below2: "int (consecutive_failures ?d1 + 1) < max_failures cfg" using assms(1) by simp
  have live2: "sessions ?s2 u = Some ?d2"
    using failed_heartbeat_counts(1) [OF live1 assms(6) wr2 below2] by simp
  have tr2: "cleanup_uuids (trace ?s2) = cleanup_uuids (trace s)"
    using failed_heartbeat_counts(2) [OF live1 assms(6) wr2 below2] tr1 by simp
  have wr3: "write_result w3 (uuid ?d2) = Written" using assms(3,9) by simp
  have reach: "max_failures cfg \<le> int (consecutive_failures ?d2 + 1)" using assms(1) by simp
  have fail3: "\<not> heartbeat_succeeds hb3 \<longrightarrow>
      sessions ?s3 u = None
      \<and> cleanup_uuids (trace ?s3) = cleanup_uuids (trace s) @ [u]
      \<and> (unlink_ok w3 u \<longrightarrow> map_of (files ?s3) u = None)"
  proof
    assume f: "\<not> heartbeat_succeeds hb3"
    show "sessions ?s3 u = None
      \<and> cleanup_uuids (trace ?s3) = cleanup_uuids (trace s) @ [u]
      \<and> (unlink_ok w3 u \<longrightarrow> map_of (files ?s3) u = None)"
      using failed_heartbeat_cleans_up(1) [OF live2 f wr3 reach]
        failed_heartbeat_cleans_up(2) [OF live2 f wr3 reach]
        failed_heartbeat_cleans_up(3) [OF live2 f wr3 reach] tr2
      by simp
  qed
  have ok3: "heartbeat_succeeds hb3 \<longrightarrow>
      sessions ?s3 u = Some (d\<lparr>consecutive_failures := 0, last_heartbeat := Some (utcnow w3)\<rparr>)
      \<and> map_of (files ?s3) u
           = Some (Valid (d\<lparr>consecutive_failures := 0, last_heartbeat := Some (utcnow w3)\<rparr>))
      \<and> cleanup_uuids (trace ?s3) = cleanup_uuids (trace s)"
  proof
    assume ok: "heartbeat_succeeds hb3"
    show "sessions ?s3 u = Some (d\<lparr>consecutive_failures := 0, last_heartbeat := Some (utcnow w3)\<rparr>)
      \<and> map_of (files ?s3) u
           = Some (Valid (d\<lparr>consecutive_failures := 0, last_heartbeat := Some (utcnow w3)\<rparr>))
      \<and> cleanup_uuids (trace ?s3) = cleanup_uuids (trace s)"
      using execute_heartbeat_success [OF live2 ok wr3, of cfg] tr2 assms(3)
      by (simp add: AList.update_conv')
  qed
  from live1 live2 fail3 ok3 show ?thesis by simp
qed

theorem three_failures_then_cleanup_witness:
  "sessions (execute_heartbeats example_config
       [(example_world, heartbeat_false), (example_world, heartbeat_false),
        (example_world, heartbeat_false)] manager_a ''a1'') ''a1'' = None
   \<and> map_of (files (execute_heartbeats example_config
       [(example_world, heartbeat_false), (example_world, heartbeat_false),
        (example_world, heartbeat_false)] manager_a ''a1'')) ''a1'' = None
   \<and> cleanup_uuids (trace (execute_heartbeats example_config
       [(example_world, heartbeat_false), (example_world, heartbeat_false),
        (example_world, heartbeat_false)] manager_a ''a1'')) = [''a1'']
   \<and> sessions (execute_heartbeats example_config
       [(example_world, heartbeat_false), (example_world, heartbeat_false),
        (example_world, heartbeat_true)] manager_a ''a1'') ''a1''
       = Some (task_a\<lparr>consecutive_failures := 0, last_heartbeat := Some 1000\<rparr>)"
proof -
  have f: "\<not> heartbeat_succeeds heartbeat_false"
    by (simp add: heartbeat_succeeds_def handle_telegram_errors_def heartbeat_false_def)
  have t: "heartbeat_succeeds heartbeat_true"
    by (simp add: heartbeat_succeeds_def handle_telegram_errors_def heartbeat_true_def)
  have c: "max_failures example_config = 3" by (simp add: example_config_def)
  have l: "sessions manager_a ''a1'' = Some task_a" by (simp add: manager_a_def)
  have i: "uuid task_a = ''a1''" "consecutive_failures task_a = 0" by (simp_all add: task_a_def)
  have wr: "write_result example_world ''a1'' = Written" by (simp add: example_world_def)
  have ul: "unlink_ok example_world ''a1''" by (simp add: example_world_def)
  have tr: "trace manager_a = []" by (simp add: manager_a_def)
  have now: "utcnow example_world = 1000" by (simp add: example_world_def)
  show ?thesis
    using three_failures_then_cleanup [OF c l i f f wr wr wr, of heartbeat_false]
      three_failures_then_cleanup [OF c l i f f wr wr wr, of heartbeat_true]
      f t ul tr now
    by simp
qed

text \<open>
  Three failed heartbeats while the file cannot be unlinked: the task is gone from
  \<^verbatim>\<open>sessions\<close> and its file is still there.
\<close>

theorem unlink_failure_leaves_file:
  "sessions (execute_heartbeats example_config
       [(world_unlink_fails, heartbeat_false), (world_unlink_fails, heartbeat_false),
        (world_unlink_fails, heartbeat_false)] manager_a ''a1'') ''a1'' = None
   \<and> map_of (files (execute_heartbeats example_config
       [(world_unlink_fails, heartbeat_false), (world_unlink_fails, heartbeat_false),
        (world_unlink_fails, heartbeat_false)] manager_a ''a1'')) ''a1''
       = Some (Valid (task_a\<lparr>consecutive_failures := 3\<rparr>))"
  by (simp add: execute_heartbeat_def handle_telegram_errors_def heartbeat_false_def
      handle_failure_def save_session_file_def cleanup_task_def stop_heartbeat_def
      unlink_file_def emit_def Let_def manager_a_def task_a_def example_config_def
      example_world_def world_unlink_fails_def)

subsection \<open>Every scheduled interval is in the range\<close>

lemma schedules_in_range_iff:
  "schedules_in_range cfg s s' \<longleftrightarrow>
     (\<exists>new. scheduled_intervals (trace s') = scheduled_intervals (trace s) @ new
            \<and> list_all (in_jitter_range cfg) new)"
proof
  assume h: "schedules_in_range cfg s s'"
  let ?n = "length (scheduled_intervals (trace s))"
  have "scheduled_intervals (trace s')
        = take ?n (scheduled_intervals (trace s')) @ drop ?n (scheduled_intervals (trace s'))"
    by simp
  with h show "\<exists>new. scheduled_intervals (trace s') = scheduled_intervals (trace s) @ new
            \<and> list_all (in_jitter_range cfg) new"
    unfolding schedules_in_range_def by metis
next
  assume "\<exists>new. scheduled_intervals (trace s') = scheduled_intervals (trace s) @ new
            \<and> list_all (in_jitter_range cfg) new"
  then show "schedules_in_range cfg s s'"
    by (auto simp add: schedules_in_range_def)
qed

lemma schedules_in_range_same:
  "scheduled_intervals (trace s') = scheduled_intervals (trace s) \<Longrightarrow> schedules_in_range cfg s s'"
  by (simp add: schedules_in_range_def)

lemma schedules_in_range_trans:
  "schedules_in_range cfg s s' \<Longrightarrow> schedules_in_range cfg s' s'' \<Longrightarrow> schedules_in_range cfg s s''"
  by (auto simp add: schedules_in_range_iff)

lemma schedules_in_range_add_job:
  "calculate_next_interval cfg e = Inr iv \<Longrightarrow> schedules_in_range cfg s (add_job w s u iv)"
  using calculate_next_interval_range [of cfg e iv]
  by (simp add: schedules_in_range_iff add_job_def in_jitter_range_def)

lemma save_session_file_intervals:
  "scheduled_intervals (trace (snd (save_session_file w s d))) = scheduled_intervals (trace s)"
  by (simp add: save_session_file_def split: write_outcome.splits)

lemma cleanup_task_intervals:
  "scheduled_intervals (trace (cleanup_task w s u r)) = scheduled_intervals (trace s)"
  by (cases "sessions s u") (simp_all add: cleanup_task_absent cleanup_task_trace(3))

lemma handle_success_intervals:
  "scheduled_intervals (trace (snd (handle_success w s u))) = scheduled_intervals (trace s)"
  by (simp add: handle_success_def Let_def save_session_file_def
      split: option.splits write_outcome.splits)

lemma handle_failure_intervals:
  "scheduled_intervals (trace (snd (handle_failure cfg w s u err))) = scheduled_intervals (trace s)"
  by (simp add: handle_failure_def Let_def save_session_file_def cleanup_task_intervals
      split: option.splits write_outcome.splits)

lemma execute_heartbeat_intervals:
  "scheduled_intervals (trace (snd (execute_heartbeat cfg w heartbeat s u)))
     = scheduled_intervals (trace s)"
proof (cases "sessions s u")
  case None
  then show ?thesis by (simp add: execute_heartbeat_def)
next
  case (Some d)
  obtain r evs where h: "handle_telegram_errors heartbeat = (r, evs)"
    by (cases "handle_telegram_errors heartbeat")
  then have q: "scheduled_intervals evs = []"
    using handle_telegram_errors_quiet(3) [of heartbeat] by simp
  have base: "scheduled_intervals (trace (emit evs s)) = scheduled_intervals (trace s)"
    using q by simp
  show ?thesis
  proof (cases r)
    case (Inl e)
    with Some h base show ?thesis
      by (simp add: execute_heartbeat_def handle_failure_intervals)
  next
    case (Inr b)
    let ?first = "if b then handle_success w (emit evs s) u
                  else handle_failure cfg w (emit evs s) u (PyException ''Heartbeat returned False'')"
    have first: "scheduled_intervals (trace (snd ?first)) = scheduled_intervals (trace s)"
      using base by (simp add: handle_success_intervals handle_failure_intervals)
    obtain r1 s1 where f: "?first = (r1, s1)" by (cases ?first)
    with first have s1: "scheduled_intervals (trace s1) = scheduled_intervals (trace s)" by simp
    show ?thesis
    proof (cases r1)
      case (Inl e)
      with Some h Inr f s1 show ?thesis
        using handle_failure_intervals [of cfg w s1 u e]
        by (simp add: execute_heartbeat_def)
    next
      case (Inr x)
      with Some h \<open>r = Inr b\<close> f s1 show ?thesis
        by (simp add: execute_heartbeat_def)
    qed
  qed
qed

lemma start_heartbeat_in_range: "schedules_in_range cfg s (snd (start_heartbeat cfg w s u))"
  by (auto simp add: start_heartbeat_def schedules_in_range_same schedules_in_range_add_job
      split: option.splits sum.splits)

lemma reschedule_in_range:
  "schedules_in_range cfg s (snd (execute_heartbeat_and_reschedule cfg w heartbeat s u))"
proof -
  obtain r s1 where e: "execute_heartbeat cfg w heartbeat s u = (r, s1)"
    by (cases "execute_heartbeat cfg w heartbeat s u")
  then have "scheduled_intervals (trace s1) = scheduled_intervals (trace s)"
    using execute_heartbeat_intervals [of cfg w heartbeat s u] by simp
  then have one: "schedules_in_range cfg s s1" by (rule schedules_in_range_same)
  have two: "schedules_in_range cfg s1 (snd (execute_heartbeat_and_reschedule cfg w heartbeat s u))"
    using e
    by (auto simp add: execute_heartbeat_and_reschedule_def schedules_in_range_same
        schedules_in_range_add_job split: sum.splits option.splits)
  from one two show ?thesis by (rule schedules_in_range_trans)
qed

lemma create_task_in_range:
  "schedules_in_range cfg s (snd (create_task cfg w validate s session chat))"
proof -
  obtain r evs where h: "handle_telegram_errors validate = (r, evs)"
    by (cases "handle_telegram_errors validate")
  then have q: "scheduled_intervals evs = []"
    using handle_telegram_errors_quiet(3) [of validate] by simp
  show ?thesis
  proof (cases r)
    case (Inl e)
    with h q show ?thesis by (simp add: create_task_def schedules_in_range_same)
  next
    case (Inr tg)
    let ?s1 = "replace_existing w (emit evs s) tg"
    let ?d = "\<lparr>uuid = uuid4 w, tg_id = tg, session_string = session,
               notify_chat_id = chat, consecutive_failures = 0,
               created_at = utcnow w, last_heartbeat = None\<rparr>"
    have s1: "scheduled_intervals (trace ?s1) = scheduled_intervals (trace s)"
      using q by (simp add: replace_existing_def cleanup_task_intervals split: option.splits)
    obtain r2 s2 where sv: "save_session_file w ?s1 ?d = (r2, s2)"
      by (cases "save_session_file w ?s1 ?d")
    then have s2: "scheduled_intervals (trace s2) = scheduled_intervals (trace s)"
      using save_session_file_intervals [of w ?s1 ?d] s1 by simp
    let ?s3 = "s2\<lparr>sessions := (sessions s2)(uuid4 w \<mapsto> ?d),
                   tg_id_to_uuid := (tg_id_to_uuid s2)(tg \<mapsto> uuid4 w)\<rparr>"
    have s3: "schedules_in_range cfg s ?s3" using s2 by (simp add: schedules_in_range_same)
    have s4: "schedules_in_range cfg s (snd (start_heartbeat cfg w ?s3 (uuid4 w)))"
      using s3 start_heartbeat_in_range by (rule schedules_in_range_trans)
    show ?thesis
    proof (cases "blank session")
      case True
      with h Inr s1 show ?thesis by (simp add: create_task_def Let_def schedules_in_range_same)
    next
      case False
      show ?thesis
      proof (cases r2)
        case (Inl e)
        with h \<open>r = Inr tg\<close> False sv s2 show ?thesis
          by (simp add: create_task_def Let_def schedules_in_range_same)
      next
        case (Inr x)
        with h \<open>r = Inr tg\<close> False sv s4 show ?thesis
          by (auto simp add: create_task_def Let_def split: prod.splits sum.splits)
      qed
    qed
  qed
qed


lemma admit_all_in_range:
  "schedules_in_range cfg s (snd (admit_all cfg w all_sessions s us))"
proof (induction us arbitrary: s)
  case Nil
  show ?case by (simp add: schedules_in_range_same)
next
  case (Cons u us)
  show ?case
  proof (cases "map_of all_sessions u")
    case None
    then show ?thesis by (simp add: schedules_in_range_same)
  next
    case (Some d)
    let ?s1 = "s\<lparr>sessions := (sessions s)(uuid d \<mapsto> d),
                  tg_id_to_uuid := (tg_id_to_uuid s)(tg_id d \<mapsto> uuid d)\<rparr>"
    have one: "schedules_in_range cfg s ?s1" by (simp add: schedules_in_range_same)
    obtain r s2 where st: "start_heartbeat cfg w ?s1 (uuid d) = (r, s2)"
      by (cases "start_heartbeat cfg w ?s1 (uuid d)")
    have "schedules_in_range cfg ?s1 s2"
      using start_heartbeat_in_range [of cfg ?s1 w "uuid d"] st by simp
    with one have two: "schedules_in_range cfg s s2" by (rule schedules_in_range_trans)
    show ?thesis
    proof (cases r)
      case (Inl e)
      with Some st two show ?thesis by (simp add: Let_def)
    next
      case (Inr x)
      have "schedules_in_range cfg s (snd (admit_all cfg w all_sessions s2 us))"
        using two Cons.IH by (rule schedules_in_range_trans)
      with Some st Inr show ?thesis by (simp add: Let_def)
    qed
  qed
qed

lemma discard_all_intervals:
  "scheduled_intervals (trace (snd (discard_all w all_sessions s us)))
     = scheduled_intervals (trace s)"
proof (induction us arbitrary: s)
  case Nil
  show ?case by simp
next
  case (Cons u us)
  show ?case
  proof (cases "map_of all_sessions u")
    case None
    then show ?thesis by simp
  next
    case (Some d)
    then show ?thesis by (simp add: Cons.IH)
  qed
qed

lemma initialize_in_range: "schedules_in_range cfg s (snd (initialize cfg w s))"
proof -
  obtain keep del where sel: "select_tasks (group_by_tg_id (load_all (files s))) = (keep, del)"
    by (cases "select_tasks (group_by_tg_id (load_all (files s)))")
  obtain r s1 where ad: "admit_all cfg w (load_all (files s)) s keep = (r, s1)"
    by (cases "admit_all cfg w (load_all (files s)) s keep")
  have one: "schedules_in_range cfg s s1"
    using admit_all_in_range [of cfg s w "load_all (files s)" keep] ad by simp
  show ?thesis
  proof (cases r)
    case (Inl e)
    with sel ad one show ?thesis by (simp add: initialize_def Let_def)
  next
    case (Inr x)
    have "schedules_in_range cfg s1 (snd (discard_all w (load_all (files s)) s1 del))"
      by (simp add: schedules_in_range_same discard_all_intervals)
    with one have "schedules_in_range cfg s (snd (discard_all w (load_all (files s)) s1 del))"
      by (rule schedules_in_range_trans)
    with sel ad Inr show ?thesis by (simp add: initialize_def Let_def)
  qed
qed

text \<open>
  C7. Every interval \<^verbatim>\<open>_calculate_next_interval\<close> returns lies in
  \<^verbatim>\<open>[interval_seconds, interval_seconds + jitter_seconds]\<close>, whatever the generator
  draws, and every jitter from 0 to \<^verbatim>\<open>jitter_seconds\<close> is a possible draw.
  \<^verbatim>\<open>start_heartbeat\<close> schedules a live task with the interval computed from the draw of
  that very call. Every job that \<^verbatim>\<open>create_task\<close>, \<^verbatim>\<open>initialize\<close> and
  \<^verbatim>\<open>_execute_heartbeat_and_reschedule\<close> add has its interval in the range. (That the
  draw is uniform is a property of \<^verbatim>\<open>random.randint\<close>, outside this model.)
\<close>

theorem scheduled_interval_in_range:
  "(calculate_next_interval cfg e = Inr iv \<longrightarrow> in_jitter_range cfg iv)
   \<and> (0 \<le> j \<and> j \<le> jitter_seconds cfg \<longrightarrow>
        calculate_next_interval cfg (nat j) = Inr (interval_seconds cfg + j))
   \<and> (sessions s u \<noteq> None \<and> calculate_next_interval cfg (entropy w u) = Inr iv \<longrightarrow>
        start_heartbeat cfg w s u = (Inr (), add_job w s u iv))
   \<and> schedules_in_range cfg s (snd (create_task cfg w validate s session chat))
   \<and> schedules_in_range cfg s (snd (initialize cfg w s))
   \<and> schedules_in_range cfg s (snd (execute_heartbeat_and_reschedule cfg w heartbeat s u))"
proof -
  have "calculate_next_interval cfg e = Inr iv \<longrightarrow> in_jitter_range cfg iv"
    using calculate_next_interval_range [of cfg e iv] by (simp add: in_jitter_range_def)
  moreover have "0 \<le> j \<and> j \<le> jitter_seconds cfg \<longrightarrow>
        calculate_next_interval cfg (nat j) = Inr (interval_seconds cfg + j)"
    by (simp add: calculate_next_interval_attains)
  moreover have "sessions s u \<noteq> None \<and> calculate_next_interval cfg (entropy w u) = Inr iv \<longrightarrow>
        start_heartbeat cfg w s u = (Inr (), add_job w s u iv)"
    by (auto simp add: start_heartbeat_def)
  ultimately show ?thesis
    using create_task_in_range [of cfg s w validate session chat]
      initialize_in_range [of cfg s w] reschedule_in_range [of cfg s w heartbeat u]
    by simp
qed

theorem scheduled_interval_in_range_witness:
  "calculate_next_interval example_config 7 = Inr 86407
   \<and> in_jitter_range example_config 86407
   \<and> calculate_next_interval example_config (nat 300) = Inr (86400 + 300)
   \<and> start_heartbeat example_config example_world manager_a ''a1''
       = (Inr (), add_job example_world manager_a ''a1'' 86407)
   \<and> scheduled_intervals (trace (snd (create_task example_config example_world validate_42
        manager_a ''1CQAAA'' 9))) = [86407]
   \<and> schedules_in_range example_config manager_a
        (snd (create_task example_config example_world validate_42 manager_a ''1CQAAA'' 9))"
proof -
  have c: "calculate_next_interval example_config 7 = Inr 86407"
    by (simp add: calculate_next_interval_def randint_def example_config_def)
  have e: "entropy example_world ''a1'' = 7" by (simp add: example_world_def)
  have l: "sessions manager_a ''a1'' \<noteq> None" by (simp add: manager_a_def)
  have j: "jitter_seconds example_config = 300" "interval_seconds example_config = 86400"
    by (simp_all add: example_config_def)
  have t: "scheduled_intervals (trace (snd (create_task example_config example_world validate_42
        manager_a ''1CQAAA'' 9))) = [86407]"
    by (simp add: create_task_def handle_telegram_errors_def validate_42_def Let_def
        replace_existing_def cleanup_task_def stop_heartbeat_def unlink_file_def save_session_file_def
        start_heartbeat_def add_job_def emit_def blank_def is_space_def c
        manager_a_def task_a_def example_world_def)
  show ?thesis
    using scheduled_interval_in_range [of example_config 7 86407 300 manager_a "''a1''"
        example_world validate_42 "''1CQAAA''" 9 heartbeat_true] c e l j t
    by simp
qed

section \<open>One live task per account\<close>

subsection \<open>Steps that keep the invariant\<close>

lemma one_task_per_account_frame:
  "sessions s' = sessions s \<Longrightarrow> tg_id_to_uuid s' = tg_id_to_uuid s \<Longrightarrow>
   one_task_per_account s \<Longrightarrow> one_task_per_account s'"
  by (simp add: one_task_per_account_def)

lemma one_task_per_account_cleanup:
  assumes "one_task_per_account s"
  shows "one_task_per_account (cleanup_task w s u r)"
proof (cases "sessions s u")
  case None
  with assms show ?thesis by (simp add: cleanup_task_absent)
next
  case (Some d)
  have a: "\<And>u1 u2 d1 d2. sessions s u1 = Some d1 \<Longrightarrow> sessions s u2 = Some d2 \<Longrightarrow> u1 \<noteq> u2
             \<Longrightarrow> tg_id d1 \<noteq> tg_id d2"
    using assms unfolding one_task_per_account_def by blast
  have b: "\<And>v e. sessions s v = Some e \<Longrightarrow> tg_id_to_uuid s (tg_id e) = Some v"
    using assms unfolding one_task_per_account_def by blast
  have b': "\<And>v e. v \<noteq> u \<Longrightarrow> sessions s v = Some e \<Longrightarrow>
              tg_id_to_uuid (cleanup_task w s u r) (tg_id e) = Some v"
  proof -
    fix v e assume "v \<noteq> u" and live: "sessions s v = Some e"
    then have "tg_id e \<noteq> tg_id d" using a [OF live Some] by simp
    with Some b [OF live] show "tg_id_to_uuid (cleanup_task w s u r) (tg_id e) = Some v"
      by (simp add: cleanup_task_tg_id_to_uuid)
  qed
  show ?thesis
    unfolding one_task_per_account_def cleanup_task_sessions
    using a b' by (auto split: if_splits)
qed

lemma replace_existing_makes_room:
  assumes "one_task_per_account s" and "sessions (replace_existing w s tg) u = Some d"
  shows "tg_id d \<noteq> tg"
proof
  assume tg: "tg_id d = tg"
  have b: "\<And>v e. sessions s v = Some e \<Longrightarrow> tg_id_to_uuid s (tg_id e) = Some v"
    using assms(1) unfolding one_task_per_account_def by blast
  show False
  proof (cases "tg_id_to_uuid s tg")
    case None
    with assms(2) have "sessions s u = Some d" by (simp add: replace_existing_def)
    from b [OF this] tg None show False by simp
  next
    case (Some old_uuid)
    with assms(2) have "sessions (cleanup_task w s old_uuid ReplacedByNewTask) u = Some d"
      by (simp add: replace_existing_def)
    then have live: "sessions s u = Some d" and ne: "u \<noteq> old_uuid"
      by (auto simp add: cleanup_task_sessions split: if_splits)
    from b [OF live] tg Some ne show False by simp
  qed
qed

lemma one_task_per_account_replace_existing:
  "one_task_per_account s \<Longrightarrow> one_task_per_account (replace_existing w s tg)"
  by (simp add: replace_existing_def one_task_per_account_cleanup split: option.splits)

lemma one_task_per_account_insert:
  assumes "one_task_per_account s"
    and "\<And>v e. sessions s v = Some e \<Longrightarrow> tg_id e \<noteq> tg_id d"
  shows "one_task_per_account
           (s\<lparr>sessions := (sessions s)(k \<mapsto> d), tg_id_to_uuid := (tg_id_to_uuid s)(tg_id d \<mapsto> k)\<rparr>)"
proof -
  have a: "\<And>u1 u2 d1 d2. sessions s u1 = Some d1 \<Longrightarrow> sessions s u2 = Some d2 \<Longrightarrow> u1 \<noteq> u2
             \<Longrightarrow> tg_id d1 \<noteq> tg_id d2"
    using assms(1) unfolding one_task_per_account_def by blast
  have b: "\<And>v e. sessions s v = Some e \<Longrightarrow> tg_id_to_uuid s (tg_id e) = Some v"
    using assms(1) unfolding one_task_per_account_def by blast
  show ?thesis
    unfolding one_task_per_account_def
  proof (intro conjI allI impI)
    fix u1 u2 d1 d2
    let ?s = "s\<lparr>sessions := (sessions s)(k \<mapsto> d), tg_id_to_uuid := (tg_id_to_uuid s)(tg_id d \<mapsto> k)\<rparr>"
    assume h: "sessions ?s u1 = Some d1 \<and> sessions ?s u2 = Some d2 \<and> u1 \<noteq> u2"
    show "tg_id d1 \<noteq> tg_id d2"
    proof (cases "u1 = k")
      case True
      with h have "d1 = d" and "sessions s u2 = Some d2" by auto
      with assms(2) [of u2 d2] show ?thesis by simp
    next
      case False
      with h have l1: "sessions s u1 = Some d1" by simp
      show ?thesis
      proof (cases "u2 = k")
        case True
        with h have "d2 = d" by simp
        with assms(2) [OF l1] show ?thesis by simp
      next
        case False
        with h have "sessions s u2 = Some d2" by simp
        with l1 h show ?thesis using a by blast
      qed
    qed
  next
    fix u e
    let ?s = "s\<lparr>sessions := (sessions s)(k \<mapsto> d), tg_id_to_uuid := (tg_id_to_uuid s)(tg_id d \<mapsto> k)\<rparr>"
    assume h: "sessions ?s u = Some e"
    show "tg_id_to_uuid ?s (tg_id e) = Some u"
    proof (cases "u = k")
      case True
      with h show ?thesis by simp
    next
      case False
      with h have l: "sessions s u = Some e" by simp
      with assms(2) [OF l] b [OF l] show ?thesis by simp
    qed
  qed
qed

lemma one_task_per_account_update:
  assumes "one_task_per_account s" and "sessions s u = Some d" and "tg_id d' = tg_id d"
  shows "one_task_per_account (s\<lparr>sessions := (sessions s)(u \<mapsto> d')\<rparr>)"
proof -
  have a: "\<And>u1 u2 d1 d2. sessions s u1 = Some d1 \<Longrightarrow> sessions s u2 = Some d2 \<Longrightarrow> u1 \<noteq> u2
             \<Longrightarrow> tg_id d1 \<noteq> tg_id d2"
    using assms(1) unfolding one_task_per_account_def by blast
  have b: "\<And>v e. sessions s v = Some e \<Longrightarrow> tg_id_to_uuid s (tg_id e) = Some v"
    using assms(1) unfolding one_task_per_account_def by blast
  show ?thesis
    unfolding one_task_per_account_def
    using a [OF assms(2)] a [OF _ assms(2)] a b b [OF assms(2)] assms(3)
    by (auto split: if_splits)
qed

lemma save_session_file_frame [simp]:
  "sessions (snd (save_session_file w s d)) = sessions s"
  "tg_id_to_uuid (snd (save_session_file w s d)) = tg_id_to_uuid s"
  by (simp_all add: save_session_file_def split: write_outcome.splits)

lemma add_job_frame [simp]:
  "sessions (add_job w s u iv) = sessions s"
  "tg_id_to_uuid (add_job w s u iv) = tg_id_to_uuid s"
  by (simp_all add: add_job_def)

lemma start_heartbeat_frame [simp]:
  "sessions (snd (start_heartbeat cfg w s u)) = sessions s"
  "tg_id_to_uuid (snd (start_heartbeat cfg w s u)) = tg_id_to_uuid s"
  by (simp_all add: start_heartbeat_def split: option.splits sum.splits)

lemma one_task_per_account_save:
  "one_task_per_account s \<Longrightarrow> one_task_per_account (snd (save_session_file w s d))"
  by (rule one_task_per_account_frame) simp_all

lemma one_task_per_account_start_heartbeat:
  "one_task_per_account s \<Longrightarrow> one_task_per_account (snd (start_heartbeat cfg w s u))"
  by (rule one_task_per_account_frame) simp_all

lemma one_task_per_account_emit:
  "one_task_per_account s \<Longrightarrow> one_task_per_account (emit evs s)"
  by (rule one_task_per_account_frame) simp_all

lemma one_task_per_account_create:
  assumes "one_task_per_account s"
  shows "one_task_per_account (snd (create_task cfg w validate s session chat))"
proof -
  obtain r evs where h: "handle_telegram_errors validate = (r, evs)"
    by (cases "handle_telegram_errors validate")
  have s0: "one_task_per_account (emit evs s)" using assms by (rule one_task_per_account_emit)
  show ?thesis
  proof (cases r)
    case (Inl e)
    with h s0 show ?thesis by (simp add: create_task_def)
  next
    case (Inr tg)
    let ?s1 = "replace_existing w (emit evs s) tg"
    let ?d = "\<lparr>uuid = uuid4 w, tg_id = tg, session_string = session,
               notify_chat_id = chat, consecutive_failures = 0,
               created_at = utcnow w, last_heartbeat = None\<rparr>"
    have s1: "one_task_per_account ?s1" using s0 by (rule one_task_per_account_replace_existing)
    obtain r2 s2 where sv: "save_session_file w ?s1 ?d = (r2, s2)"
      by (cases "save_session_file w ?s1 ?d")
    have fr: "sessions s2 = sessions ?s1" "tg_id_to_uuid s2 = tg_id_to_uuid ?s1"
      using save_session_file_frame [of w ?s1 ?d] sv by simp_all
    have s2: "one_task_per_account s2"
      using one_task_per_account_save [OF s1, of w ?d] sv by simp
    have room: "\<And>v e. sessions s2 v = Some e \<Longrightarrow> tg_id e \<noteq> tg_id ?d"
      using replace_existing_makes_room [OF s0, of w tg] fr by simp
    let ?s3 = "s2\<lparr>sessions := (sessions s2)(uuid4 w \<mapsto> ?d),
                   tg_id_to_uuid := (tg_id_to_uuid s2)(tg \<mapsto> uuid4 w)\<rparr>"
    have s3: "one_task_per_account ?s3"
      using one_task_per_account_insert [OF s2 room, where k = "uuid4 w"] by simp
    have s4: "one_task_per_account (snd (start_heartbeat cfg w ?s3 (uuid4 w)))"
      using s3 by (rule one_task_per_account_start_heartbeat)
    show ?thesis
    proof (cases "blank session")
      case True
      with h Inr s1 show ?thesis by (simp add: create_task_def Let_def)
    next
      case False
      show ?thesis
      proof (cases r2)
        case (Inl e)
        with h \<open>r = Inr tg\<close> False sv s2 show ?thesis by (simp add: create_task_def Let_def)
      next
        case (Inr x)
        with h \<open>r = Inr tg\<close> False sv s4 show ?thesis
          by (auto simp add: create_task_def Let_def split: prod.splits sum.splits)
      qed
    qed
  qed
qed

lemma one_task_per_account_handle_success:
  assumes "one_task_per_account s"
  shows "one_task_per_account (snd (handle_success w s u))"
proof (cases "sessions s u")
  case None
  with assms show ?thesis by (simp add: handle_success_def)
next
  case (Some d)
  let ?d = "d\<lparr>consecutive_failures := 0, last_heartbeat := Some (utcnow w)\<rparr>"
  let ?s1 = "s\<lparr>sessions := (sessions s)(u \<mapsto> ?d)\<rparr>"
  have s1: "one_task_per_account ?s1"
    using assms Some by (rule one_task_per_account_update) simp
  obtain r2 s2 where sv: "save_session_file w ?s1 ?d = (r2, s2)"
    by (cases "save_session_file w ?s1 ?d")
  have s2: "one_task_per_account s2"
    using one_task_per_account_save [OF s1, of w ?d] sv by simp
  then have "one_task_per_account (emit [Sent (SendSuccess (notify_chat_id ?d) u)] s2)"
    by (rule one_task_per_account_emit)
  with Some sv s2 show ?thesis
    by (cases r2) (simp_all add: handle_success_def Let_def)
qed

lemma one_task_per_account_handle_failure:
  assumes "one_task_per_account s"
  shows "one_task_per_account (snd (handle_failure cfg w s u err))"
proof (cases "sessions s u")
  case None
  with assms show ?thesis by (simp add: handle_failure_def)
next
  case (Some d)
  let ?d = "d\<lparr>consecutive_failures := consecutive_failures d + 1\<rparr>"
  let ?s1 = "s\<lparr>sessions := (sessions s)(u \<mapsto> ?d)\<rparr>"
  have s1: "one_task_per_account ?s1"
    using assms Some by (rule one_task_per_account_update) simp
  obtain r2 s2 where sv: "save_session_file w ?s1 ?d = (r2, s2)"
    by (cases "save_session_file w ?s1 ?d")
  have s2: "one_task_per_account s2"
    using one_task_per_account_save [OF s1, of w ?d] sv by simp
  then have s3: "one_task_per_account (emit [Sent (SendFailure (notify_chat_id ?d) u err)] s2)"
    by (rule one_task_per_account_emit)
  then have "one_task_per_account
      (cleanup_task w (emit [Sent (SendFailure (notify_chat_id ?d) u err)] s2) u
         (ConsecutiveFailures (max_failures cfg)))"
    by (rule one_task_per_account_cleanup)
  with Some sv s2 s3 show ?thesis
    by (cases r2) (simp_all add: handle_failure_def Let_def)
qed

lemma one_task_per_account_execute_heartbeat:
  assumes "one_task_per_account s"
  shows "one_task_per_account (snd (execute_heartbeat cfg w heartbeat s u))"
proof (cases "sessions s u")
  case None
  with assms show ?thesis by (simp add: execute_heartbeat_def)
next
  case (Some d)
  obtain r evs where h: "handle_telegram_errors heartbeat = (r, evs)"
    by (cases "handle_telegram_errors heartbeat")
  have s1: "one_task_per_account (emit evs s)" using assms by (rule one_task_per_account_emit)
  show ?thesis
  proof (cases r)
    case (Inl e)
    with Some h show ?thesis
      using one_task_per_account_handle_failure [OF s1, of cfg w u e]
      by (simp add: execute_heartbeat_def)
  next
    case (Inr b)
    let ?first = "if b then handle_success w (emit evs s) u
                  else handle_failure cfg w (emit evs s) u (PyException ''Heartbeat returned False'')"
    have first: "one_task_per_account (snd ?first)"
      using s1 by (simp add: one_task_per_account_handle_success one_task_per_account_handle_failure)
    obtain r1 s2 where f: "?first = (r1, s2)" by (cases ?first)
    with first have s2: "one_task_per_account s2" by simp
    show ?thesis
    proof (cases r1)
      case (Inl e)
      with Some h Inr f show ?thesis
        using one_task_per_account_handle_failure [OF s2, of cfg w u e]
        by (simp add: execute_heartbeat_def)
    next
      case (Inr x)
      with Some h \<open>r = Inr b\<close> f s2 show ?thesis
        by (simp add: execute_heartbeat_def)
    qed
  qed
qed

lemma one_task_per_account_reschedule:
  assumes "one_task_per_account s"
  shows "one_task_per_account (snd (execute_heartbeat_and_reschedule cfg w heartbeat s u))"
proof -
  obtain r s1 where e: "execute_heartbeat cfg w heartbeat s u = (r, s1)"
    by (cases "execute_heartbeat cfg w heartbeat s u")
  then have s1: "one_task_per_account s1"
    using one_task_per_account_execute_heartbeat [OF assms, of cfg w heartbeat u] by simp
  have "\<And>iv. one_task_per_account (add_job w s1 u iv)"
    using s1 by (rule one_task_per_account_frame [rotated 2]) simp_all
  with e s1 show ?thesis
    by (auto simp add: execute_heartbeat_and_reschedule_def split: sum.splits option.splits)
qed

text \<open>The first loop of phase 4 over uuids whose records have pairwise different tg_id.\<close>

lemma one_task_per_account_admit_all:
  assumes "one_task_per_account s"
    and "distinct us"
    and "\<And>u1 u2 d1 d2. u1 \<in> set us \<Longrightarrow> u2 \<in> set us \<Longrightarrow> u1 \<noteq> u2 \<Longrightarrow>
           map_of al u1 = Some d1 \<Longrightarrow> map_of al u2 = Some d2 \<Longrightarrow> tg_id d1 \<noteq> tg_id d2"
    and "\<And>v e u d. sessions s v = Some e \<Longrightarrow> u \<in> set us \<Longrightarrow> map_of al u = Some d \<Longrightarrow>
           tg_id e \<noteq> tg_id d"
  shows "one_task_per_account (snd (admit_all cfg w al s us))"
  using assms
proof (induction us arbitrary: s)
  case Nil
  then show ?case by simp
next
  case (Cons u us)
  show ?case
  proof (cases "map_of al u")
    case None
    with Cons.prems(1) show ?thesis by simp
  next
    case (Some d)
    let ?s1 = "s\<lparr>sessions := (sessions s)(uuid d \<mapsto> d),
                  tg_id_to_uuid := (tg_id_to_uuid s)(tg_id d \<mapsto> uuid d)\<rparr>"
    have room: "\<And>v e. sessions s v = Some e \<Longrightarrow> tg_id e \<noteq> tg_id d"
      using Cons.prems(4) [of _ _ u d] Some by simp
    have s1: "one_task_per_account ?s1"
      using Cons.prems(1) room by (rule one_task_per_account_insert)
    obtain r s2 where st: "start_heartbeat cfg w ?s1 (uuid d) = (r, s2)"
      by (cases "start_heartbeat cfg w ?s1 (uuid d)")
    have fr: "sessions s2 = sessions ?s1"
      using start_heartbeat_frame(1) [of cfg w ?s1 "uuid d"] st by simp
    have s2: "one_task_per_account s2"
      using one_task_per_account_start_heartbeat [OF s1, of cfg w "uuid d"] st by simp
    show ?thesis
    proof (cases r)
      case (Inl e)
      with Some st s2 show ?thesis by (simp add: Let_def)
    next
      case (Inr x)
      have d_us: "distinct us" and u_us: "u \<notin> set us" using Cons.prems(2) by simp_all
      have pair: "\<And>u1 u2 d1 d2. u1 \<in> set us \<Longrightarrow> u2 \<in> set us \<Longrightarrow> u1 \<noteq> u2 \<Longrightarrow>
           map_of al u1 = Some d1 \<Longrightarrow> map_of al u2 = Some d2 \<Longrightarrow> tg_id d1 \<noteq> tg_id d2"
      proof -
        fix u1 u2 d1 d2
        assume "u1 \<in> set us" and "u2 \<in> set us" and "u1 \<noteq> u2"
          and "map_of al u1 = Some d1" and "map_of al u2 = Some d2"
        then show "tg_id d1 \<noteq> tg_id d2"
          using Cons.prems(3) [of u1 u2 d1 d2] by simp
      qed
      have room': "\<And>v e u' d'. sessions s2 v = Some e \<Longrightarrow> u' \<in> set us \<Longrightarrow>
           map_of al u' = Some d' \<Longrightarrow> tg_id e \<noteq> tg_id d'"
      proof -
        fix v e u' d'
        assume live: "sessions s2 v = Some e" and m: "u' \<in> set us" and rec: "map_of al u' = Some d'"
        show "tg_id e \<noteq> tg_id d'"
        proof (cases "v = uuid d")
          case True
          with live fr have "e = d" by simp
          moreover have "u \<noteq> u'" using m u_us by auto
          ultimately show ?thesis using Cons.prems(3) [of u u' d d'] m Some rec by simp
        next
          case False
          with live fr have "sessions s v = Some e" by simp
          then show ?thesis using Cons.prems(4) [of v e u' d'] m rec by simp
        qed
      qed
      have "one_task_per_account (snd (admit_all cfg w al s2 us))"
        using s2 d_us pair room' by (rule Cons.IH)
      with Some st Inr show ?thesis by (simp add: Let_def)
    qed
  qed
qed

lemma discard_all_frame [simp]:
  "sessions (snd (discard_all w al s us)) = sessions s"
  "tg_id_to_uuid (snd (discard_all w al s us)) = tg_id_to_uuid s"
  by (induction us arbitrary: s) (simp_all split: option.splits)

section \<open>Startup reconciliation\<close>

subsection \<open>Phase 1\<close>

lemma load_all_fold_distinct:
  "distinct (map fst acc) \<Longrightarrow>
   distinct (map fst (fold (\<lambda>(stem, c) all_sessions.
             case c of Valid d \<Rightarrow> AList.update (uuid d) d all_sessions
             | Corrupt \<Rightarrow> all_sessions) fs acc))"
proof (induction fs arbitrary: acc)
  case Nil
  then show ?case by simp
next
  case (Cons f fs)
  obtain stem c where f: "f = (stem, c)" by (cases f)
  show ?case
  proof (cases c)
    case (Valid d)
    have "distinct (map fst (AList.update (uuid d) d acc))"
      using Cons.prems by (rule AList.distinct_update)
    then show ?thesis using f Valid Cons.IH by simp
  next
    case Corrupt
    then show ?thesis using f Cons.prems Cons.IH by simp
  qed
qed

lemma load_all_distinct: "distinct (map fst (load_all fs))"
  unfolding load_all_def by (rule load_all_fold_distinct) simp

lemma update_list_all:
  "list_all P al \<Longrightarrow> P (k, v) \<Longrightarrow> list_all P (AList.update k v al)"
  by (induction al) auto

lemma load_all_fold_keys:
  "list_all (\<lambda>(u, d). uuid d = u) acc \<Longrightarrow>
   list_all (\<lambda>(u, d). uuid d = u)
     (fold (\<lambda>(stem, c) all_sessions.
             case c of Valid d \<Rightarrow> AList.update (uuid d) d all_sessions
             | Corrupt \<Rightarrow> all_sessions) fs acc)"
proof (induction fs arbitrary: acc)
  case Nil
  then show ?case by simp
next
  case (Cons f fs)
  obtain stem c where f: "f = (stem, c)" by (cases f)
  show ?case
  proof (cases c)
    case (Valid d)
    have "list_all (\<lambda>(u, d). uuid d = u) (AList.update (uuid d) d acc)"
      using Cons.prems by (rule update_list_all) simp
    then show ?thesis using f Valid Cons.IH by simp
  next
    case Corrupt
    then show ?thesis using f Cons.prems Cons.IH by simp
  qed
qed

lemma load_all_keys:
  assumes "map_of (load_all fs) u = Some d"
  shows "uuid d = u"
proof -
  have "list_all (\<lambda>(u, d). uuid d = u) (load_all fs)"
    unfolding load_all_def by (rule load_all_fold_keys) simp
  moreover from assms have "(u, d) \<in> set (load_all fs)" by (rule map_of_SomeD)
  ultimately show ?thesis by (auto simp add: list_all_iff)
qed

subsection \<open>Phase 2\<close>

lemma group_fold_distinct:
  "distinct (map fst acc) \<Longrightarrow>
   distinct (map fst (fold (\<lambda>(u, d) groups.
             AList.map_default (tg_id d) [(u, created_at d)]
               (\<lambda>uuid_list. uuid_list @ [(u, created_at d)]) groups) al acc))"
proof (induction al arbitrary: acc)
  case Nil
  then show ?case by simp
next
  case (Cons p al)
  obtain u d where p: "p = (u, d)" by (cases p)
  have "distinct (map fst (AList.map_default (tg_id d) [(u, created_at d)]
               (\<lambda>uuid_list. uuid_list @ [(u, created_at d)]) acc))"
    using Cons.prems by (rule AList.distinct_map_default)
  then show ?case using p Cons.IH by simp
qed

lemma group_by_tg_id_distinct: "distinct (map fst (group_by_tg_id al))"
  unfolding group_by_tg_id_def by (rule group_fold_distinct) simp

lemma members_of_Cons:
  "members_of ((u, d) # al) tg =
     (if tg_id d = tg then (u, created_at d) # members_of al tg else members_of al tg)"
  by (simp add: members_of_def)

lemma group_fold_map_of:
  "map_of (fold (\<lambda>(u, d) groups.
             AList.map_default (tg_id d) [(u, created_at d)]
               (\<lambda>uuid_list. uuid_list @ [(u, created_at d)]) groups) al acc) tg
   = (case map_of acc tg of
        None \<Rightarrow> if members_of al tg = [] then None else Some (members_of al tg)
      | Some l \<Rightarrow> Some (l @ members_of al tg))"
proof (induction al arbitrary: acc)
  case Nil
  show ?case by (simp add: members_of_def split: option.splits)
next
  case (Cons p al)
  obtain u d where p: "p = (u, d)" by (cases p)
  let ?acc = "AList.map_default (tg_id d) [(u, created_at d)]
               (\<lambda>uuid_list. uuid_list @ [(u, created_at d)]) acc"
  let ?f = "\<lambda>(u, d) groups.
             AList.map_default (tg_id d) [(u, created_at d)]
               (\<lambda>uuid_list. uuid_list @ [(u, created_at d)]) groups"
  have step: "fold ?f (p # al) acc = fold ?f al ?acc" by (simp add: p)
  have ih: "map_of (fold ?f al ?acc) tg
     = (case map_of ?acc tg of
          None \<Rightarrow> if members_of al tg = [] then None else Some (members_of al tg)
        | Some l \<Rightarrow> Some (l @ members_of al tg))"
    by (rule Cons.IH)
  show ?case
  proof (cases "tg_id d = tg")
    case False
    then have "map_of ?acc tg = map_of acc tg" by (simp add: AList.map_of_map_default)
    moreover have "members_of (p # al) tg = members_of al tg"
      using False by (simp add: p members_of_Cons)
    ultimately show ?thesis by (simp only: step ih)
  next
    case True
    have mem: "members_of (p # al) tg = (u, created_at d) # members_of al tg"
      using True by (simp add: p members_of_Cons)
    show ?thesis
    proof (cases "map_of acc tg")
      case None
      then have "map_of ?acc tg = Some [(u, created_at d)]"
        using True by (simp add: AList.map_of_map_default)
      with None mem show ?thesis by (simp only: step ih) simp
    next
      case (Some l)
      then have "map_of ?acc tg = Some (l @ [(u, created_at d)])"
        using True by (simp add: AList.map_of_map_default)
      with Some mem show ?thesis by (simp only: step ih) simp
    qed
  qed
qed

lemma group_by_tg_id_map_of:
  "map_of (group_by_tg_id al) tg
     = (if members_of al tg = [] then None else Some (members_of al tg))"
  unfolding group_by_tg_id_def by (simp add: group_fold_map_of)

lemma group_by_tg_id_member:
  "(tg, l) \<in> set (group_by_tg_id al) \<longleftrightarrow> l = members_of al tg \<and> l \<noteq> []"
proof -
  have m: "(tg, l) \<in> set (group_by_tg_id al) \<longleftrightarrow> map_of (group_by_tg_id al) tg = Some l"
    using group_by_tg_id_distinct [of al] by simp
  show ?thesis
  proof (cases "members_of al tg = []")
    case True
    then have "map_of (group_by_tg_id al) tg = None" by (simp add: group_by_tg_id_map_of)
    with m True show ?thesis by auto
  next
    case False
    then have "map_of (group_by_tg_id al) tg = Some (members_of al tg)"
      by (simp add: group_by_tg_id_map_of)
    with m False show ?thesis by auto
  qed
qed

lemma group_by_tg_id_nonempty: "(tg, l) \<in> set (group_by_tg_id al) \<Longrightarrow> l \<noteq> []"
  using group_by_tg_id_member [of tg l al] by blast

lemma members_of_record:
  assumes "distinct (map fst al)" and "(u, c) \<in> set (members_of al tg)"
  shows "\<exists>d. map_of al u = Some d \<and> tg_id d = tg \<and> created_at d = c"
proof -
  from assms(2) obtain d where "(u, d) \<in> set al" and "tg_id d = tg" and "created_at d = c"
    by (auto simp add: members_of_def)
  with assms(1) show ?thesis by simp
qed

lemma record_in_members_of:
  assumes "map_of al u = Some d"
  shows "(u, created_at d) \<in> set (members_of al (tg_id d))"
proof -
  from assms have "(u, d) \<in> set al" by (rule map_of_SomeD)
  then show ?thesis by (force simp add: members_of_def)
qed

subsection \<open>The newest of a group\<close>

lemma max_by_created_in: "max_by_created best xs \<in> set (best # xs)"
proof (induction xs arbitrary: best)
  case Nil
  show ?case by simp
next
  case (Cons x xs)
  let ?b = "if snd best < snd x then x else best"
  have "max_by_created ?b xs \<in> set (?b # xs)" by (rule Cons.IH)
  moreover have "set (?b # xs) \<subseteq> set (best # x # xs)" by auto
  ultimately have "max_by_created ?b xs \<in> set (best # x # xs)" by blast
  then show ?case by simp
qed

lemma max_by_created_max: "y \<in> set (best # xs) \<Longrightarrow> snd y \<le> snd (max_by_created best xs)"
proof (induction xs arbitrary: best y)
  case Nil
  then show ?case by simp
next
  case (Cons x xs)
  let ?b = "if snd best < snd x then x else best"
  have b: "snd ?b \<le> snd (max_by_created ?b xs)"
    by (rule Cons.IH) simp
  from Cons.prems consider "y = best" | "y = x" | "y \<in> set xs" by auto
  then show ?case
  proof cases
    case 1 with b show ?thesis by (simp split: if_splits)
  next
    case 2 with b show ?thesis by (simp split: if_splits)
  next
    case 3
    then have "snd y \<le> snd (max_by_created ?b xs)" by (intro Cons.IH) simp
    then show ?thesis by simp
  qed
qed

lemma newest_uuid_in:
  assumes "l \<noteq> []"
  shows "\<exists>c. (newest_uuid l, c) \<in> set l \<and> (\<forall>y \<in> set l. snd y \<le> c)"
proof -
  from assms obtain x xs where l: "l = x # xs" by (cases l) auto
  let ?m = "max_by_created x xs"
  have "?m \<in> set l" using max_by_created_in [of x xs] l by simp
  then have one: "(newest_uuid l, snd ?m) \<in> set l" by (simp add: newest_uuid_def l)
  have two: "\<forall>y \<in> set l. snd y \<le> snd ?m"
  proof
    fix y assume "y \<in> set l"
    then have "y \<in> set (x # xs)" using l by simp
    then show "snd y \<le> snd ?m" by (rule max_by_created_max)
  qed
  from one two show ?thesis by blast
qed

subsection \<open>Phase 3\<close>

lemma set_set_add [simp]: "set (set_add x xs) = insert x (set xs)"
  by (auto simp add: set_add_def)

lemma distinct_set_add: "distinct xs \<Longrightarrow> distinct (set_add x xs)"
  by (simp add: set_add_def)

lemma mark_others_member:
  "v \<in> set (fold (\<lambda>(u, _) del. if u \<noteq> nu then set_add u del else del) l del0)
     \<longleftrightarrow> v \<in> set del0 \<or> (v \<in> fst ` set l \<and> v \<noteq> nu)"
proof (induction l arbitrary: del0)
  case Nil
  show ?case by simp
next
  case (Cons p l)
  obtain u c where p: "p = (u, c)" by (cases p)
  show ?case unfolding p by (auto simp add: Cons.IH)
qed

lemma mark_others_distinct:
  "distinct del0 \<Longrightarrow>
   distinct (fold (\<lambda>(u, _) del. if u \<noteq> nu then set_add u del else del) l del0)"
proof (induction l arbitrary: del0)
  case Nil
  then show ?case by simp
next
  case (Cons p l)
  obtain u c where p: "p = (u, c)" by (cases p)
  have "distinct (if u \<noteq> nu then set_add u del0 else del0)"
    using Cons.prems by (simp add: distinct_set_add)
  then have "distinct (fold (\<lambda>(u, _) del. if u \<noteq> nu then set_add u del else del) l
                        (if u \<noteq> nu then set_add u del0 else del0))"
    by (rule Cons.IH)
  then show ?case unfolding p by simp
qed

lemma select_group_nonempty:
  assumes "l \<noteq> []"
  shows "select_group l (keep, del) =
           (set_add (newest_uuid l) keep,
            fold (\<lambda>(u, _) del. if u \<noteq> newest_uuid l then set_add u del else del) l del)"
proof (cases l)
  case Nil
  with assms show ?thesis by simp
next
  case (Cons x xs)
  show ?thesis
  proof (cases xs)
    case Nil
    obtain u c where x: "x = (u, c)" by (cases x)
    show ?thesis unfolding Cons Nil x by (simp add: newest_uuid_def)
  next
    case (Cons y ys)
    show ?thesis unfolding \<open>l = x # xs\<close> Cons by (simp add: newest_uuid_def Let_def)
  qed
qed

lemma select_fold_step:
  assumes "l \<noteq> []"
  shows "fold (\<lambda>(tg, uuid_list). select_group uuid_list) ((tg, l) # groups) (keep, del)
       = fold (\<lambda>(tg, uuid_list). select_group uuid_list) groups
           (set_add (newest_uuid l) keep,
            fold (\<lambda>(u, _) del. if u \<noteq> newest_uuid l then set_add u del else del) l del)"
  by (simp add: select_group_nonempty [OF assms])

lemma select_fold_keep:
  assumes "list_all (\<lambda>g. snd g \<noteq> []) groups"
  shows "v \<in> set (fst (fold (\<lambda>(tg, uuid_list). select_group uuid_list) groups (keep, del)))
           \<longleftrightarrow> v \<in> set keep \<or> (\<exists>tg l. (tg, l) \<in> set groups \<and> v = newest_uuid l)"
  using assms
proof (induction groups arbitrary: keep del)
  case Nil
  show ?case by simp
next
  case (Cons g groups)
  obtain tg l where g: "g = (tg, l)" by (cases g)
  have ne: "l \<noteq> []" using Cons.prems g by simp
  have rest: "list_all (\<lambda>g. snd g \<noteq> []) groups" using Cons.prems by simp
  let ?k = "set_add (newest_uuid l) keep"
  let ?d = "fold (\<lambda>(u, _) del. if u \<noteq> newest_uuid l then set_add u del else del) l del"
  have ih: "v \<in> set (fst (fold (\<lambda>(tg, uuid_list). select_group uuid_list) groups (?k, ?d)))
           \<longleftrightarrow> v \<in> set ?k \<or> (\<exists>tg l. (tg, l) \<in> set groups \<and> v = newest_uuid l)"
    using rest by (rule Cons.IH)
  have k: "v \<in> set ?k \<longleftrightarrow> v \<in> set keep \<or> v = newest_uuid l" by auto
  have ex: "(\<exists>tg' l'. (tg', l') \<in> set (g # groups) \<and> v = newest_uuid l')
            \<longleftrightarrow> v = newest_uuid l \<or> (\<exists>tg' l'. (tg', l') \<in> set groups \<and> v = newest_uuid l')"
    unfolding g by auto
  show ?case
    unfolding g select_fold_step [OF ne] ih k ex [unfolded g] by blast
qed

lemma select_fold_del:
  assumes "list_all (\<lambda>g. snd g \<noteq> []) groups"
  shows "v \<in> set (snd (fold (\<lambda>(tg, uuid_list). select_group uuid_list) groups (keep, del)))
           \<longleftrightarrow> v \<in> set del
                \<or> (\<exists>tg l. (tg, l) \<in> set groups \<and> v \<in> fst ` set l \<and> v \<noteq> newest_uuid l)"
  using assms
proof (induction groups arbitrary: keep del)
  case Nil
  show ?case by simp
next
  case (Cons g groups)
  obtain tg l where g: "g = (tg, l)" by (cases g)
  have ne: "l \<noteq> []" using Cons.prems g by simp
  have rest: "list_all (\<lambda>g. snd g \<noteq> []) groups" using Cons.prems by simp
  let ?k = "set_add (newest_uuid l) keep"
  let ?d = "fold (\<lambda>(u, _) del. if u \<noteq> newest_uuid l then set_add u del else del) l del"
  have ih: "v \<in> set (snd (fold (\<lambda>(tg, uuid_list). select_group uuid_list) groups (?k, ?d)))
           \<longleftrightarrow> v \<in> set ?d
                \<or> (\<exists>tg l. (tg, l) \<in> set groups \<and> v \<in> fst ` set l \<and> v \<noteq> newest_uuid l)"
    using rest by (rule Cons.IH)
  have d: "v \<in> set ?d \<longleftrightarrow> v \<in> set del \<or> (v \<in> fst ` set l \<and> v \<noteq> newest_uuid l)"
    by (rule mark_others_member)
  have ex: "(\<exists>tg' l'. (tg', l') \<in> set (g # groups) \<and> v \<in> fst ` set l' \<and> v \<noteq> newest_uuid l')
            \<longleftrightarrow> (v \<in> fst ` set l \<and> v \<noteq> newest_uuid l)
                \<or> (\<exists>tg' l'. (tg', l') \<in> set groups \<and> v \<in> fst ` set l' \<and> v \<noteq> newest_uuid l')"
    unfolding g by auto
  show ?case
    unfolding g select_fold_step [OF ne] ih d ex [unfolded g] by blast
qed

lemma select_fold_distinct:
  assumes "list_all (\<lambda>g. snd g \<noteq> []) groups"
    and "distinct keep" and "distinct del"
  shows "distinct (fst (fold (\<lambda>(tg, uuid_list). select_group uuid_list) groups (keep, del)))
       \<and> distinct (snd (fold (\<lambda>(tg, uuid_list). select_group uuid_list) groups (keep, del)))"
  using assms
proof (induction groups arbitrary: keep del)
  case Nil
  then show ?case by simp
next
  case (Cons g groups)
  obtain tg l where g: "g = (tg, l)" by (cases g)
  have ne: "l \<noteq> []" using Cons.prems(1) g by simp
  have rest: "list_all (\<lambda>g. snd g \<noteq> []) groups" using Cons.prems(1) by simp
  let ?k = "set_add (newest_uuid l) keep"
  let ?d = "fold (\<lambda>(u, _) del. if u \<noteq> newest_uuid l then set_add u del else del) l del"
  have k: "distinct ?k" using Cons.prems(2) by (rule distinct_set_add)
  have d: "distinct ?d" using Cons.prems(3) by (rule mark_others_distinct)
  show ?case
    unfolding g select_fold_step [OF ne] using rest k d by (rule Cons.IH)
qed

subsection \<open>What is kept and what is deleted\<close>

lemma groups_nonempty: "list_all (\<lambda>g. snd g \<noteq> []) (group_by_tg_id al)"
  unfolding list_all_iff
proof
  fix g assume "g \<in> set (group_by_tg_id al)"
  then have "(fst g, snd g) \<in> set (group_by_tg_id al)" by simp
  then show "snd g \<noteq> []" by (rule group_by_tg_id_nonempty)
qed

lemma keep_member:
  "v \<in> set (fst (select_tasks (group_by_tg_id al)))
     \<longleftrightarrow> (\<exists>tg. members_of al tg \<noteq> [] \<and> v = newest_uuid (members_of al tg))"
  unfolding select_tasks_def select_fold_keep [OF groups_nonempty] group_by_tg_id_member
  by auto

lemma del_member:
  "v \<in> set (snd (select_tasks (group_by_tg_id al)))
     \<longleftrightarrow> (\<exists>tg. v \<in> fst ` set (members_of al tg) \<and> v \<noteq> newest_uuid (members_of al tg))"
proof -
  have "\<And>tg. v \<in> fst ` set (members_of al tg) \<Longrightarrow> members_of al tg \<noteq> []" by auto
  then show ?thesis
    unfolding select_tasks_def select_fold_del [OF groups_nonempty] group_by_tg_id_member
    by (simp del: set_empty set_empty2) blast
qed

lemma select_tasks_distinct:
  "distinct (fst (select_tasks (group_by_tg_id al)))"
  "distinct (snd (select_tasks (group_by_tg_id al)))"
  using select_fold_distinct [OF groups_nonempty, of "[]" "[]" al]
  by (simp_all add: select_tasks_def)

lemma member_tg:
  assumes "distinct (map fst al)" and "map_of al u = Some d"
  shows "u \<in> fst ` set (members_of al tg) \<longleftrightarrow> tg = tg_id d"
proof
  assume "u \<in> fst ` set (members_of al tg)"
  then obtain c where "(u, c) \<in> set (members_of al tg)" by auto
  from members_of_record [OF assms(1) this] assms(2) show "tg = tg_id d" by auto
next
  assume "tg = tg_id d"
  with record_in_members_of [OF assms(2)] show "u \<in> fst ` set (members_of al tg)"
    by force
qed

lemma newest_uuid_member:
  "members_of al tg \<noteq> [] \<Longrightarrow> newest_uuid (members_of al tg) \<in> fst ` set (members_of al tg)"
  using newest_uuid_in [of "members_of al tg"] by force

lemma keep_record:
  assumes "distinct (map fst al)" and "map_of al u = Some d"
  shows "u \<in> set (fst (select_tasks (group_by_tg_id al)))
           \<longleftrightarrow> u = newest_uuid (members_of al (tg_id d))"
proof
  assume "u \<in> set (fst (select_tasks (group_by_tg_id al)))"
  then obtain tg where ne: "members_of al tg \<noteq> []" and u: "u = newest_uuid (members_of al tg)"
    unfolding keep_member by blast
  from newest_uuid_member [OF ne] u have "u \<in> fst ` set (members_of al tg)" by simp
  then have "tg = tg_id d" using member_tg [OF assms] by simp
  with u show "u = newest_uuid (members_of al (tg_id d))" by simp
next
  assume u: "u = newest_uuid (members_of al (tg_id d))"
  have "members_of al (tg_id d) \<noteq> []" using record_in_members_of [OF assms(2)] by auto
  with u show "u \<in> set (fst (select_tasks (group_by_tg_id al)))"
    unfolding keep_member by blast
qed

lemma del_record:
  assumes "distinct (map fst al)" and "map_of al u = Some d"
  shows "u \<in> set (snd (select_tasks (group_by_tg_id al)))
           \<longleftrightarrow> u \<noteq> newest_uuid (members_of al (tg_id d))"
  unfolding del_member using member_tg [OF assms] by auto

lemma keep_has_record:
  assumes "distinct (map fst al)" and "u \<in> set (fst (select_tasks (group_by_tg_id al)))"
  shows "\<exists>d. map_of al u = Some d"
proof -
  from assms(2) obtain tg where ne: "members_of al tg \<noteq> []"
    and u: "u = newest_uuid (members_of al tg)"
    unfolding keep_member by blast
  from newest_uuid_member [OF ne] u obtain c where "(u, c) \<in> set (members_of al tg)" by auto
  from members_of_record [OF assms(1) this] show ?thesis by blast
qed

lemma del_has_record:
  assumes "distinct (map fst al)" and "u \<in> set (snd (select_tasks (group_by_tg_id al)))"
  shows "\<exists>d. map_of al u = Some d"
proof -
  from assms(2) obtain tg c where "(u, c) \<in> set (members_of al tg)"
    unfolding del_member by auto
  from members_of_record [OF assms(1) this] show ?thesis by blast
qed

lemma keep_different_tg_id:
  assumes "distinct (map fst al)"
    and "u1 \<in> set (fst (select_tasks (group_by_tg_id al)))"
    and "u2 \<in> set (fst (select_tasks (group_by_tg_id al)))"
    and "u1 \<noteq> u2" and "map_of al u1 = Some d1" and "map_of al u2 = Some d2"
  shows "tg_id d1 \<noteq> tg_id d2"
proof
  assume "tg_id d1 = tg_id d2"
  moreover have "u1 = newest_uuid (members_of al (tg_id d1))"
    using keep_record [OF assms(1,5)] assms(2) by simp
  moreover have "u2 = newest_uuid (members_of al (tg_id d2))"
    using keep_record [OF assms(1,6)] assms(3) by simp
  ultimately show False using assms(4) by simp
qed

subsection \<open>Phase 4 when nothing raises\<close>

lemma start_heartbeat_live:
  assumes "0 \<le> jitter_seconds cfg" and "sessions s u = Some d"
  shows "start_heartbeat cfg w s u =
           (Inr (), add_job w s u
              (interval_seconds cfg + int (entropy w u mod nat (jitter_seconds cfg + 1))))"
  using assms by (simp add: start_heartbeat_def calculate_next_interval_def randint_def)

lemma admit_all_Cons:
  assumes "0 \<le> jitter_seconds cfg" and "map_of al u = Some d"
  shows "admit_all cfg w al s (u # us) = admit_all cfg w al (admit_one cfg w s d) us"
proof -
  let ?s1 = "s\<lparr>sessions := (sessions s)(uuid d \<mapsto> d),
                tg_id_to_uuid := (tg_id_to_uuid s)(tg_id d \<mapsto> uuid d)\<rparr>"
  have "sessions ?s1 (uuid d) = Some d" by simp
  from start_heartbeat_live [OF assms(1) this, of w] assms(2) show ?thesis
    by (simp add: admit_one_def Let_def)
qed

lemma admit_one_fields [simp]:
  "sessions (admit_one cfg w s d) = (sessions s)(uuid d \<mapsto> d)"
  "tg_id_to_uuid (admit_one cfg w s d) = (tg_id_to_uuid s)(tg_id d \<mapsto> uuid d)"
  "files (admit_one cfg w s d) = files s"
  "jobs (admit_one cfg w s d) (uuid d) \<noteq> None"
  "x \<noteq> uuid d \<Longrightarrow> jobs (admit_one cfg w s d) x = jobs s x"
  "\<exists>iv. trace (admit_one cfg w s d) = trace s @ [JobAdded (uuid d) iv]"
  by (simp_all add: admit_one_def add_job_def)

lemma admit_all_result:
  assumes "0 \<le> jitter_seconds cfg"
    and "list_all (\<lambda>u. \<exists>d. map_of al u = Some d \<and> uuid d = u) us"
  shows "fst (admit_all cfg w al s us) = Inr ()
       \<and> sessions (snd (admit_all cfg w al s us))
           = (\<lambda>x. if x \<in> set us then map_of al x else sessions s x)
       \<and> files (snd (admit_all cfg w al s us)) = files s
       \<and> (\<forall>x. x \<notin> set us \<longrightarrow> jobs (snd (admit_all cfg w al s us)) x = jobs s x)
       \<and> (\<forall>x. x \<in> set us \<longrightarrow> jobs (snd (admit_all cfg w al s us)) x \<noteq> None)
       \<and> (\<exists>ext. trace (snd (admit_all cfg w al s us)) = trace s @ ext \<and> list_all is_job_added ext)"
  using assms(2)
proof (induction us arbitrary: s)
  case Nil
  show ?case by simp
next
  case (Cons u us)
  from Cons.prems obtain d where d: "map_of al u = Some d" and ud: "uuid d = u" by auto
  have rest: "list_all (\<lambda>u. \<exists>d. map_of al u = Some d \<and> uuid d = u) us" using Cons.prems by simp
  let ?s1 = "admit_one cfg w s d"
  let ?r = "admit_all cfg w al ?s1 us"
  have step: "admit_all cfg w al s (u # us) = ?r" using assms(1) d by (rule admit_all_Cons)
  have ih: "fst ?r = Inr ()
       \<and> sessions (snd ?r) = (\<lambda>x. if x \<in> set us then map_of al x else sessions ?s1 x)
       \<and> files (snd ?r) = files ?s1
       \<and> (\<forall>x. x \<notin> set us \<longrightarrow> jobs (snd ?r) x = jobs ?s1 x)
       \<and> (\<forall>x. x \<in> set us \<longrightarrow> jobs (snd ?r) x \<noteq> None)
       \<and> (\<exists>ext. trace (snd ?r) = trace ?s1 @ ext \<and> list_all is_job_added ext)"
    using rest by (rule Cons.IH)
  from ih have one: "fst ?r = Inr ()" by simp
  from ih have two: "sessions (snd ?r) = (\<lambda>x. if x \<in> set (u # us) then map_of al x else sessions s x)"
    using d ud by (auto simp add: fun_eq_iff)
  from ih have three: "files (snd ?r) = files s" by simp
  have four: "\<forall>x. x \<notin> set (u # us) \<longrightarrow> jobs (snd ?r) x = jobs s x"
  proof (intro allI impI)
    fix x assume "x \<notin> set (u # us)"
    then have "x \<notin> set us" and "x \<noteq> uuid d" using ud by simp_all
    with ih show "jobs (snd ?r) x = jobs s x" by simp
  qed
  have five: "\<forall>x. x \<in> set (u # us) \<longrightarrow> jobs (snd ?r) x \<noteq> None"
  proof (intro allI impI)
    fix x assume x: "x \<in> set (u # us)"
    show "jobs (snd ?r) x \<noteq> None"
    proof (cases "x \<in> set us")
      case True
      with ih show ?thesis by blast
    next
      case False
      with x ud have "x = uuid d" by simp
      moreover from False ih have "jobs (snd ?r) x = jobs ?s1 x" by blast
      ultimately show ?thesis by simp
    qed
  qed
  from ih obtain ext where ext: "trace (snd ?r) = trace ?s1 @ ext" "list_all is_job_added ext"
    by blast
  obtain iv where "trace ?s1 = trace s @ [JobAdded (uuid d) iv]"
    using admit_one_fields(6) [of cfg w s d] by blast
  with ext have "trace (snd ?r) = trace s @ (JobAdded (uuid d) iv # ext)
                 \<and> list_all is_job_added (JobAdded (uuid d) iv # ext)"
    by simp
  then have six: "\<exists>ext. trace (snd ?r) = trace s @ ext \<and> list_all is_job_added ext" by blast
  from one two three four five six show ?case unfolding step by blast
qed

lemma admit_all_tg_id_other:
  assumes "0 \<le> jitter_seconds cfg"
    and "list_all (\<lambda>u. \<exists>d. map_of al u = Some d \<and> uuid d = u \<and> tg_id d \<noteq> tg) us"
  shows "tg_id_to_uuid (snd (admit_all cfg w al s us)) tg = tg_id_to_uuid s tg"
  using assms(2)
proof (induction us arbitrary: s)
  case Nil
  show ?case by simp
next
  case (Cons u us)
  from Cons.prems obtain d where d: "map_of al u = Some d" and tg: "tg_id d \<noteq> tg" by auto
  have rest: "list_all (\<lambda>u. \<exists>d. map_of al u = Some d \<and> uuid d = u \<and> tg_id d \<noteq> tg) us"
    using Cons.prems by simp
  have "tg_id_to_uuid (snd (admit_all cfg w al (admit_one cfg w s d) us)) tg
          = tg_id_to_uuid (admit_one cfg w s d) tg"
    using rest by (rule Cons.IH)
  then show ?case
    unfolding admit_all_Cons [OF assms(1) d] using tg by simp
qed

lemma admit_all_tg_id_to_uuid:
  assumes "0 \<le> jitter_seconds cfg"
    and "list_all (\<lambda>u. \<exists>d. map_of al u = Some d \<and> uuid d = u) us"
    and "distinct us"
    and "\<And>u1 u2 d1 d2. u1 \<in> set us \<Longrightarrow> u2 \<in> set us \<Longrightarrow> u1 \<noteq> u2 \<Longrightarrow>
           map_of al u1 = Some d1 \<Longrightarrow> map_of al u2 = Some d2 \<Longrightarrow> tg_id d1 \<noteq> tg_id d2"
    and "v \<in> set us" and "map_of al v = Some e"
  shows "tg_id_to_uuid (snd (admit_all cfg w al s us)) (tg_id e) = Some v"
  using assms(2,3,4,5)
proof (induction us arbitrary: s)
  case Nil
  then show ?case by simp
next
  case (Cons u us)
  from Cons.prems(1) obtain d where d: "map_of al u = Some d" and ud: "uuid d = u" by auto
  have rest: "list_all (\<lambda>u. \<exists>d. map_of al u = Some d \<and> uuid d = u) us"
    using Cons.prems(1) by simp
  have dist: "distinct us" and notin: "u \<notin> set us" using Cons.prems(2) by simp_all
  have pair: "\<And>u1 u2 d1 d2. u1 \<in> set us \<Longrightarrow> u2 \<in> set us \<Longrightarrow> u1 \<noteq> u2 \<Longrightarrow>
           map_of al u1 = Some d1 \<Longrightarrow> map_of al u2 = Some d2 \<Longrightarrow> tg_id d1 \<noteq> tg_id d2"
  proof -
    fix u1 u2 d1 d2
    assume "u1 \<in> set us" and "u2 \<in> set us" and "u1 \<noteq> u2"
      and "map_of al u1 = Some d1" and "map_of al u2 = Some d2"
    then show "tg_id d1 \<noteq> tg_id d2" using Cons.prems(3) [of u1 u2 d1 d2] by simp
  qed
  let ?s1 = "admit_one cfg w s d"
  note step = admit_all_Cons [OF assms(1) d, of w s us]
  show ?case
  proof (cases "v = u")
    case True
    with d assms(6) have e: "e = d" by simp
    have "list_all (\<lambda>u. \<exists>d'. map_of al u = Some d' \<and> uuid d' = u \<and> tg_id d' \<noteq> tg_id d) us"
      unfolding list_all_iff
    proof
      fix u' assume m: "u' \<in> set us"
      with rest obtain d' where r: "map_of al u' = Some d'" "uuid d' = u'"
        by (auto simp add: list_all_iff)
      from m notin have "u' \<noteq> u" by auto
      then have "tg_id d' \<noteq> tg_id d" using Cons.prems(3) [of u' u d' d] m r(1) d by simp
      with r show "\<exists>d'. map_of al u' = Some d' \<and> uuid d' = u' \<and> tg_id d' \<noteq> tg_id d" by simp
    qed
    then have "tg_id_to_uuid (snd (admit_all cfg w al ?s1 us)) (tg_id d) = tg_id_to_uuid ?s1 (tg_id d)"
      by (rule admit_all_tg_id_other [OF assms(1)])
    then show ?thesis unfolding step e using ud True by simp
  next
    case False
    with Cons.prems(4) have "v \<in> set us" by simp
    with rest dist pair have "tg_id_to_uuid (snd (admit_all cfg w al ?s1 us)) (tg_id e) = Some v"
      by (rule Cons.IH)
    then show ?thesis unfolding step .
  qed
qed

lemma discard_all_Cons:
  "map_of al u = Some d \<Longrightarrow>
   discard_all w al s (u # us) = discard_all w al (discard_one w s u d) us"
  by (simp add: discard_one_def)

lemma discard_one_files:
  "map_of (files (discard_one w s u d)) x
     = (if x = u \<and> unlink_ok w u then None else map_of (files s) x)"
  by (cases "map_of (files s) u")
     (auto simp add: discard_one_def unlink_file_def AList.delete_conv')

lemma discard_one_trace:
  "\<exists>tl. trace (discard_one w s u d)
           = trace s @ Sent (SendCleanup (notify_chat_id d) u ReplacedByNewTask) # tl
        \<and> set tl \<subseteq> {FileDeleted u}"
  by (cases "map_of (files s) u") (auto simp add: discard_one_def unlink_file_def)

lemma discard_one_cleanup_uuids:
  "cleanup_uuids (trace (discard_one w s u d)) = cleanup_uuids (trace s) @ [u]"
  by (simp add: discard_one_def)

lemma discard_all_result:
  assumes "list_all (\<lambda>u. \<exists>d. map_of al u = Some d) us"
  shows "fst (discard_all w al s us) = Inr ()
       \<and> map_of (files (snd (discard_all w al s us))) x
           = (if x \<in> set us \<and> unlink_ok w x then None else map_of (files s) x)
       \<and> cleanup_uuids (trace (snd (discard_all w al s us))) = cleanup_uuids (trace s) @ us
       \<and> (\<exists>ext. trace (snd (discard_all w al s us)) = trace s @ ext)"
  using assms
proof (induction us arbitrary: s)
  case Nil
  show ?case by simp
next
  case (Cons u us)
  from Cons.prems obtain d where d: "map_of al u = Some d" by auto
  have rest: "list_all (\<lambda>u. \<exists>d. map_of al u = Some d) us" using Cons.prems by simp
  let ?s1 = "discard_one w s u d"
  let ?r = "discard_all w al ?s1 us"
  have ih: "fst ?r = Inr ()
       \<and> map_of (files (snd ?r)) x
           = (if x \<in> set us \<and> unlink_ok w x then None else map_of (files ?s1) x)
       \<and> cleanup_uuids (trace (snd ?r)) = cleanup_uuids (trace ?s1) @ us
       \<and> (\<exists>ext. trace (snd ?r) = trace ?s1 @ ext)"
    using rest by (rule Cons.IH)
  from ih have one: "fst ?r = Inr ()" by simp
  from ih have two: "map_of (files (snd ?r)) x
           = (if x \<in> set (u # us) \<and> unlink_ok w x then None else map_of (files s) x)"
    by (auto simp add: discard_one_files)
  from ih have three: "cleanup_uuids (trace (snd ?r)) = cleanup_uuids (trace s) @ u # us"
    by (simp add: discard_one_cleanup_uuids)
  from ih obtain ext where "trace (snd ?r) = trace ?s1 @ ext" by blast
  moreover obtain tl where
    "trace ?s1 = trace s @ Sent (SendCleanup (notify_chat_id d) u ReplacedByNewTask) # tl"
    using discard_one_trace [of w s u d] by blast
  ultimately have "trace (snd ?r)
      = trace s @ (Sent (SendCleanup (notify_chat_id d) u ReplacedByNewTask) # tl @ ext)"
    by simp
  then have four: "\<exists>ext. trace (snd ?r) = trace s @ ext" by blast
  from one two three four show ?case unfolding discard_all_Cons [OF d] by blast
qed

lemma discard_all_order:
  assumes "list_all (\<lambda>u. \<exists>d. map_of al u = Some d) us"
    and "v \<in> set us" and "map_of al v = Some e"
  shows "\<exists>pre post. trace (snd (discard_all w al s us))
           = trace s @ pre @ Sent (SendCleanup (notify_chat_id e) v ReplacedByNewTask) # post
         \<and> FileDeleted v \<notin> set pre"
  using assms(1,2)
proof (induction us arbitrary: s)
  case Nil
  then show ?case by simp
next
  case (Cons u us)
  from Cons.prems(1) obtain d where d: "map_of al u = Some d" by auto
  have rest: "list_all (\<lambda>u. \<exists>d. map_of al u = Some d) us" using Cons.prems(1) by simp
  let ?s1 = "discard_one w s u d"
  let ?r = "discard_all w al ?s1 us"
  obtain tl where tl:
    "trace ?s1 = trace s @ Sent (SendCleanup (notify_chat_id d) u ReplacedByNewTask) # tl"
    "set tl \<subseteq> {FileDeleted u}"
    using discard_one_trace [of w s u d] by blast
  show ?case
  proof (cases "v = u")
    case True
    with d assms(3) have e: "e = d" by simp
    obtain ext where "trace (snd ?r) = trace ?s1 @ ext"
      using discard_all_result [OF rest, of w ?s1] by blast
    with tl(1) have "trace (snd ?r)
        = trace s @ [] @ Sent (SendCleanup (notify_chat_id e) v ReplacedByNewTask) # (tl @ ext)
        \<and> FileDeleted v \<notin> set []"
      using True e by simp
    then show ?thesis unfolding discard_all_Cons [OF d] by blast
  next
    case False
    with Cons.prems(2) have "v \<in> set us" by simp
    with rest obtain pre post where pp:
      "trace (snd ?r) = trace ?s1 @ pre @ Sent (SendCleanup (notify_chat_id e) v ReplacedByNewTask) # post"
      "FileDeleted v \<notin> set pre"
      using Cons.IH [of ?s1] by blast
    let ?pre = "Sent (SendCleanup (notify_chat_id d) u ReplacedByNewTask) # tl @ pre"
    have "trace (snd ?r)
        = trace s @ ?pre @ Sent (SendCleanup (notify_chat_id e) v ReplacedByNewTask) # post"
      using pp(1) tl(1) by simp
    moreover have "FileDeleted v \<notin> set ?pre" using pp(2) tl(2) False by auto
    ultimately show ?thesis unfolding discard_all_Cons [OF d] by blast
  qed
qed

lemma job_added_quiet:
  assumes "list_all is_job_added ext"
  shows "cleanup_uuids ext = []" and "FileDeleted v \<notin> set ext"
proof -
  show "cleanup_uuids ext = []" using assms
    by (induction ext rule: cleanup_uuids.induct) simp_all
  show "FileDeleted v \<notin> set ext" using assms by (auto simp add: list_all_iff)
qed

lemma count_list_distinct: "distinct xs \<Longrightarrow> count_list xs x = (if x \<in> set xs then 1 else 0)"
  by (induction xs) auto

lemma discard_all_jobs: "jobs (snd (discard_all w al s us)) = jobs s"
  by (induction us arbitrary: s) (simp_all split: option.splits)

lemma keep_records:
  "list_all (\<lambda>u. \<exists>d. map_of (load_all fs) u = Some d \<and> uuid d = u)
     (fst (select_tasks (group_by_tg_id (load_all fs))))"
  unfolding list_all_iff
proof
  fix u assume "u \<in> set (fst (select_tasks (group_by_tg_id (load_all fs))))"
  with keep_has_record [OF load_all_distinct] obtain d where d: "map_of (load_all fs) u = Some d"
    by blast
  with load_all_keys [OF d] show "\<exists>d. map_of (load_all fs) u = Some d \<and> uuid d = u" by simp
qed

lemma del_records:
  "list_all (\<lambda>u. \<exists>d. map_of (load_all fs) u = Some d)
     (snd (select_tasks (group_by_tg_id (load_all fs))))"
  unfolding list_all_iff
proof
  fix u assume "u \<in> set (snd (select_tasks (group_by_tg_id (load_all fs))))"
  with del_has_record [OF load_all_distinct] show "\<exists>d. map_of (load_all fs) u = Some d"
    by blast
qed

lemma initialize_decompose:
  assumes "0 \<le> jitter_seconds cfg"
  shows "initialize cfg w s =
           discard_all w (load_all (files s))
             (snd (admit_all cfg w (load_all (files s)) s
                     (fst (select_tasks (group_by_tg_id (load_all (files s)))))))
             (snd (select_tasks (group_by_tg_id (load_all (files s)))))"
proof -
  let ?al = "load_all (files s)"
  let ?sel = "select_tasks (group_by_tg_id ?al)"
  have "fst (admit_all cfg w ?al s (fst ?sel)) = Inr ()"
    using admit_all_result [OF assms keep_records [of "files s"], of w s] by simp
  then obtain s1 where a: "admit_all cfg w ?al s (fst ?sel) = (Inr (), s1)"
    by (cases "admit_all cfg w ?al s (fst ?sel)") simp
  obtain keep del where sel: "?sel = (keep, del)" by (cases ?sel)
  from a sel have "admit_all cfg w ?al s keep = (Inr (), s1)" by simp
  with sel show ?thesis by (simp add: initialize_def Let_def)
qed

text \<open>What \<^verbatim>\<open>initialize\<close> does with the loaded record \<open>d\<close> of uuid \<open>u\<close>.\<close>

lemma initialize_returns:
  assumes "0 \<le> jitter_seconds cfg"
  shows "fst (initialize cfg w s) = Inr ()"
  unfolding initialize_decompose [OF assms]
  using discard_all_result [OF del_records] by blast

lemma initialize_sessions:
  assumes "0 \<le> jitter_seconds cfg"
  shows "sessions (snd (initialize cfg w s)) x
           = (if x \<in> set (fst (select_tasks (group_by_tg_id (load_all (files s)))))
              then map_of (load_all (files s)) x else sessions s x)"
  unfolding initialize_decompose [OF assms]
  using admit_all_result [OF assms keep_records [of "files s"], of w s] by simp

lemma initialize_jobs:
  assumes "0 \<le> jitter_seconds cfg"
  shows "x \<in> set (fst (select_tasks (group_by_tg_id (load_all (files s))))) \<Longrightarrow>
           jobs (snd (initialize cfg w s)) x \<noteq> None"
    and "x \<notin> set (fst (select_tasks (group_by_tg_id (load_all (files s))))) \<Longrightarrow>
           jobs (snd (initialize cfg w s)) x = jobs s x"
proof -
  have j: "jobs (snd (initialize cfg w s))
         = jobs (snd (admit_all cfg w (load_all (files s)) s
                     (fst (select_tasks (group_by_tg_id (load_all (files s)))))))"
    unfolding initialize_decompose [OF assms] by (rule discard_all_jobs)
  show "x \<in> set (fst (select_tasks (group_by_tg_id (load_all (files s))))) \<Longrightarrow>
           jobs (snd (initialize cfg w s)) x \<noteq> None"
    unfolding j using admit_all_result [OF assms keep_records [of "files s"], of w s] by blast
  show "x \<notin> set (fst (select_tasks (group_by_tg_id (load_all (files s))))) \<Longrightarrow>
           jobs (snd (initialize cfg w s)) x = jobs s x"
    unfolding j using admit_all_result [OF assms keep_records [of "files s"], of w s] by blast
qed

lemma admit_all_files:
  "files (snd (admit_all cfg w al s us)) = files s"
proof (induction us arbitrary: s)
  case Nil
  show ?case by simp
next
  case (Cons u us)
  show ?case
  proof (cases "map_of al u")
    case None
    then show ?thesis by simp
  next
    case (Some d)
    let ?s1 = "s\<lparr>sessions := (sessions s)(uuid d \<mapsto> d),
                  tg_id_to_uuid := (tg_id_to_uuid s)(tg_id d \<mapsto> uuid d)\<rparr>"
    obtain r s2 where st: "start_heartbeat cfg w ?s1 (uuid d) = (r, s2)"
      by (cases "start_heartbeat cfg w ?s1 (uuid d)")
    then have f: "files s2 = files s"
      by (auto simp add: start_heartbeat_def add_job_def split: option.splits sum.splits)
    show ?thesis
    proof (cases r)
      case (Inl e)
      with Some st f show ?thesis by (simp add: Let_def)
    next
      case (Inr x)
      with Some st f Cons.IH [of s2] show ?thesis by (simp add: Let_def)
    qed
  qed
qed

lemma initialize_files:
  assumes "0 \<le> jitter_seconds cfg"
  shows "map_of (files (snd (initialize cfg w s))) x
           = (if x \<in> set (snd (select_tasks (group_by_tg_id (load_all (files s)))))
                 \<and> unlink_ok w x
              then None else map_of (files s) x)"
  unfolding initialize_decompose [OF assms]
  using discard_all_result [OF del_records [of "files s"], of w _ x]
  by (simp add: admit_all_files)

lemma initialize_tg_id_to_uuid:
  assumes "0 \<le> jitter_seconds cfg"
    and "v \<in> set (fst (select_tasks (group_by_tg_id (load_all (files s)))))"
    and "map_of (load_all (files s)) v = Some e"
  shows "tg_id_to_uuid (snd (initialize cfg w s)) (tg_id e) = Some v"
proof -
  let ?al = "load_all (files s)"
  let ?keep = "fst (select_tasks (group_by_tg_id ?al))"
  have pair: "\<And>u1 u2 d1 d2. u1 \<in> set ?keep \<Longrightarrow> u2 \<in> set ?keep \<Longrightarrow> u1 \<noteq> u2 \<Longrightarrow>
           map_of ?al u1 = Some d1 \<Longrightarrow> map_of ?al u2 = Some d2 \<Longrightarrow> tg_id d1 \<noteq> tg_id d2"
    by (rule keep_different_tg_id [OF load_all_distinct])
  have "tg_id_to_uuid (snd (admit_all cfg w ?al s ?keep)) (tg_id e) = Some v"
    using assms(1) keep_records select_tasks_distinct(1) pair assms(2,3)
    by (rule admit_all_tg_id_to_uuid)
  then show ?thesis unfolding initialize_decompose [OF assms(1)] by simp
qed

lemma initialize_events:
  assumes "0 \<le> jitter_seconds cfg"
  shows "\<exists>ext1 ext2. new_events s (snd (initialize cfg w s)) = ext1 @ ext2
           \<and> list_all is_job_added ext1
           \<and> trace (snd (initialize cfg w s))
               = trace (snd (admit_all cfg w (load_all (files s)) s
                     (fst (select_tasks (group_by_tg_id (load_all (files s))))))) @ ext2
           \<and> cleanup_uuids ext2 = snd (select_tasks (group_by_tg_id (load_all (files s))))"
proof -
  let ?al = "load_all (files s)"
  let ?keep = "fst (select_tasks (group_by_tg_id ?al))"
  let ?del = "snd (select_tasks (group_by_tg_id ?al))"
  let ?s1 = "snd (admit_all cfg w ?al s ?keep)"
  let ?s2 = "snd (discard_all w ?al ?s1 ?del)"
  obtain ext1 where e1: "trace ?s1 = trace s @ ext1" "list_all is_job_added ext1"
    using admit_all_result [OF assms keep_records [of "files s"], of w s] by blast
  obtain ext2 where e2: "trace ?s2 = trace ?s1 @ ext2"
    using discard_all_result [OF del_records [of "files s"], of w ?s1] by blast
  have "cleanup_uuids (trace ?s2) = cleanup_uuids (trace ?s1) @ ?del"
    using discard_all_result [OF del_records [of "files s"], of w ?s1] by blast
  with e2 have c: "cleanup_uuids ext2 = ?del" by simp
  have "new_events s ?s2 = ext1 @ ext2" using e1(1) e2 by (simp add: new_events_def)
  with e1(2) e2 c show ?thesis unfolding initialize_decompose [OF assms] by blast
qed

lemma initialize_cleanup_uuids:
  assumes "0 \<le> jitter_seconds cfg"
  shows "cleanup_uuids (new_events s (snd (initialize cfg w s)))
           = snd (select_tasks (group_by_tg_id (load_all (files s))))"
proof -
  obtain ext1 ext2 where "new_events s (snd (initialize cfg w s)) = ext1 @ ext2"
    and "list_all is_job_added ext1"
    and "cleanup_uuids ext2 = snd (select_tasks (group_by_tg_id (load_all (files s))))"
    using initialize_events [OF assms, of s w] by blast
  then show ?thesis by (simp add: job_added_quiet(1))
qed

lemma initialize_order:
  assumes "0 \<le> jitter_seconds cfg"
    and "v \<in> set (snd (select_tasks (group_by_tg_id (load_all (files s)))))"
    and "map_of (load_all (files s)) v = Some e"
  shows "\<exists>pre post. new_events s (snd (initialize cfg w s))
           = pre @ Sent (SendCleanup (notify_chat_id e) v ReplacedByNewTask) # post
         \<and> FileDeleted v \<notin> set pre"
proof -
  let ?al = "load_all (files s)"
  let ?keep = "fst (select_tasks (group_by_tg_id ?al))"
  let ?del = "snd (select_tasks (group_by_tg_id ?al))"
  let ?s1 = "snd (admit_all cfg w ?al s ?keep)"
  let ?s2 = "snd (discard_all w ?al ?s1 ?del)"
  obtain ext1 where e1: "trace ?s1 = trace s @ ext1" "list_all is_job_added ext1"
    using admit_all_result [OF assms(1) keep_records [of "files s"], of w s] by blast
  obtain pre post where pp:
    "trace ?s2 = trace ?s1 @ pre @ Sent (SendCleanup (notify_chat_id e) v ReplacedByNewTask) # post"
    "FileDeleted v \<notin> set pre"
    using discard_all_order [OF del_records [of "files s"] assms(2,3), of w ?s1] by blast
  have "new_events s ?s2
          = (ext1 @ pre) @ Sent (SendCleanup (notify_chat_id e) v ReplacedByNewTask) # post"
    using e1(1) pp(1) by (simp add: new_events_def)
  moreover have "FileDeleted v \<notin> set (ext1 @ pre)"
    using pp(2) job_added_quiet(2) [OF e1(2), of v] by simp
  ultimately show ?thesis unfolding initialize_decompose [OF assms(1)] by blast
qed

lemma newest_is_latest:
  assumes "map_of (load_all fs) u = Some d"
  shows "\<exists>dk. map_of (load_all fs) (newest_uuid (members_of (load_all fs) (tg_id d))) = Some dk
             \<and> tg_id dk = tg_id d \<and> created_at d \<le> created_at dk"
proof -
  let ?m = "members_of (load_all fs) (tg_id d)"
  have mem: "(u, created_at d) \<in> set ?m" using assms by (rule record_in_members_of)
  then have "?m \<noteq> []" by auto
  then obtain c where c: "(newest_uuid ?m, c) \<in> set ?m" and top: "\<forall>y \<in> set ?m. snd y \<le> c"
    using newest_uuid_in [of ?m] by blast
  from members_of_record [OF load_all_distinct c] obtain dk where
    "map_of (load_all fs) (newest_uuid ?m) = Some dk" "tg_id dk = tg_id d" "created_at dk = c"
    by blast
  moreover from top mem have "created_at d \<le> c" by force
  ultimately show ?thesis by simp
qed

subsection \<open>The newest record of each account survives\<close>

text \<open>
  C3. The claim: of the loaded records of one \<^verbatim>\<open>tg_id\<close> only the one with the latest
  \<^verbatim>\<open>created_at\<close> enters \<^verbatim>\<open>sessions\<close> and is scheduled, and every other one gets exactly
  one cleanup notification before its file is deleted. The unlink of \<^verbatim>\<open>initialize\<close>
  sits in a \<^verbatim>\<open>try\<close> whose \<^verbatim>\<open>except\<close> logs and goes on, so a file that cannot be
  unlinked stays. What holds, when \<^verbatim>\<open>jitter_seconds\<close> is not negative (otherwise
  \<^verbatim>\<open>random.randint\<close> raises in the first \<^verbatim>\<open>start_heartbeat\<close>), for every loaded record
  \<open>d\<close> with uuid \<open>u\<close>: \<^verbatim>\<open>initialize\<close> returns; the loaded records of the \<^verbatim>\<open>tg_id\<close> of \<open>d\<close>
  have one survivor, whose \<^verbatim>\<open>created_at\<close> is at least that of \<open>d\<close> (the first such
  record in loading order when several are latest); if \<open>d\<close> is the survivor it is put into
  \<^verbatim>\<open>sessions\<close> and \<^verbatim>\<open>tg_id_to_uuid\<close>, it has a job, its file is untouched and no cleanup
  notification names it; otherwise \<^verbatim>\<open>sessions\<close> and the jobs are unchanged at \<open>u\<close>,
  exactly one cleanup notification names \<open>u\<close>, sent to the chat of \<open>d\<close> with the reason
  "replaced by a new task" and before any deletion of \<^verbatim>\<open>u.json\<close>, and when the unlink does
  not fail there is no file \<^verbatim>\<open>u.json\<close> afterwards.
\<close>

theorem startup_keeps_newest:
  assumes "0 \<le> jitter_seconds cfg" and "map_of (load_all (files s)) u = Some d"
  shows "fst (initialize cfg w s) = Inr ()
       \<and> (\<exists>dk. map_of (load_all (files s))
                 (newest_uuid (members_of (load_all (files s)) (tg_id d))) = Some dk
              \<and> tg_id dk = tg_id d \<and> created_at d \<le> created_at dk)
       \<and> (u = newest_uuid (members_of (load_all (files s)) (tg_id d)) \<longrightarrow>
            sessions (snd (initialize cfg w s)) u = Some d
          \<and> tg_id_to_uuid (snd (initialize cfg w s)) (tg_id d) = Some u
          \<and> jobs (snd (initialize cfg w s)) u \<noteq> None
          \<and> map_of (files (snd (initialize cfg w s))) u = map_of (files s) u
          \<and> count_list (cleanup_uuids (new_events s (snd (initialize cfg w s)))) u = 0)
       \<and> (u \<noteq> newest_uuid (members_of (load_all (files s)) (tg_id d)) \<longrightarrow>
            sessions (snd (initialize cfg w s)) u = sessions s u
          \<and> jobs (snd (initialize cfg w s)) u = jobs s u
          \<and> count_list (cleanup_uuids (new_events s (snd (initialize cfg w s)))) u = 1
          \<and> (\<exists>pre post. new_events s (snd (initialize cfg w s))
                 = pre @ Sent (SendCleanup (notify_chat_id d) u ReplacedByNewTask) # post
               \<and> FileDeleted u \<notin> set pre)
          \<and> (unlink_ok w u \<longrightarrow> map_of (files (snd (initialize cfg w s))) u = None))"
proof -
  let ?al = "load_all (files s)"
  let ?keep = "fst (select_tasks (group_by_tg_id ?al))"
  let ?del = "snd (select_tasks (group_by_tg_id ?al))"
  let ?k = "newest_uuid (members_of ?al (tg_id d))"
  let ?s' = "snd (initialize cfg w s)"
  have keep: "u \<in> set ?keep \<longleftrightarrow> u = ?k"
    using load_all_distinct assms(2) by (rule keep_record)
  have del: "u \<in> set ?del \<longleftrightarrow> u \<noteq> ?k"
    using load_all_distinct assms(2) by (rule del_record)
  have count: "count_list (cleanup_uuids (new_events s ?s')) u = (if u \<in> set ?del then 1 else 0)"
    unfolding initialize_cleanup_uuids [OF assms(1)]
    using select_tasks_distinct(2) by (rule count_list_distinct)
  have one: "fst (initialize cfg w s) = Inr ()" using assms(1) by (rule initialize_returns)
  have two: "\<exists>dk. map_of ?al ?k = Some dk \<and> tg_id dk = tg_id d \<and> created_at d \<le> created_at dk"
    using assms(2) by (rule newest_is_latest)
  have three: "u = ?k \<longrightarrow>
            sessions ?s' u = Some d
          \<and> tg_id_to_uuid ?s' (tg_id d) = Some u
          \<and> jobs ?s' u \<noteq> None
          \<and> map_of (files ?s') u = map_of (files s) u
          \<and> count_list (cleanup_uuids (new_events s ?s')) u = 0"
  proof
    assume k: "u = ?k"
    with keep have in_keep: "u \<in> set ?keep" by simp
    from k del have not_del: "u \<notin> set ?del" by simp
    have "sessions ?s' u = Some d"
      using in_keep assms(2) by (simp add: initialize_sessions [OF assms(1)])
    moreover have "tg_id_to_uuid ?s' (tg_id d) = Some u"
      using assms(1) in_keep assms(2) by (rule initialize_tg_id_to_uuid)
    moreover have "jobs ?s' u \<noteq> None"
      using in_keep by (rule initialize_jobs(1) [OF assms(1)])
    moreover have "map_of (files ?s') u = map_of (files s) u"
      using not_del by (simp add: initialize_files [OF assms(1)])
    moreover have "count_list (cleanup_uuids (new_events s ?s')) u = 0"
      using not_del count by simp
    ultimately show "sessions ?s' u = Some d
          \<and> tg_id_to_uuid ?s' (tg_id d) = Some u
          \<and> jobs ?s' u \<noteq> None
          \<and> map_of (files ?s') u = map_of (files s) u
          \<and> count_list (cleanup_uuids (new_events s ?s')) u = 0"
      by simp
  qed
  have four: "u \<noteq> ?k \<longrightarrow>
            sessions ?s' u = sessions s u
          \<and> jobs ?s' u = jobs s u
          \<and> count_list (cleanup_uuids (new_events s ?s')) u = 1
          \<and> (\<exists>pre post. new_events s ?s'
                 = pre @ Sent (SendCleanup (notify_chat_id d) u ReplacedByNewTask) # post
               \<and> FileDeleted u \<notin> set pre)
          \<and> (unlink_ok w u \<longrightarrow> map_of (files ?s') u = None)"
  proof
    assume k: "u \<noteq> ?k"
    with keep have not_keep: "u \<notin> set ?keep" by simp
    from k del have in_del: "u \<in> set ?del" by simp
    have "sessions ?s' u = sessions s u"
      using not_keep by (simp add: initialize_sessions [OF assms(1)])
    moreover have "jobs ?s' u = jobs s u"
      using not_keep by (rule initialize_jobs(2) [OF assms(1)])
    moreover have "count_list (cleanup_uuids (new_events s ?s')) u = 1"
      using in_del count by simp
    moreover have "\<exists>pre post. new_events s ?s'
                 = pre @ Sent (SendCleanup (notify_chat_id d) u ReplacedByNewTask) # post
               \<and> FileDeleted u \<notin> set pre"
      using assms(1) in_del assms(2) by (rule initialize_order)
    moreover have "unlink_ok w u \<longrightarrow> map_of (files ?s') u = None"
      using in_del by (simp add: initialize_files [OF assms(1)])
    ultimately show "sessions ?s' u = sessions s u
          \<and> jobs ?s' u = jobs s u
          \<and> count_list (cleanup_uuids (new_events s ?s')) u = 1
          \<and> (\<exists>pre post. new_events s ?s'
                 = pre @ Sent (SendCleanup (notify_chat_id d) u ReplacedByNewTask) # post
               \<and> FileDeleted u \<notin> set pre)
          \<and> (unlink_ok w u \<longrightarrow> map_of (files ?s') u = None)"
      by simp
  qed
  from one two three four show ?thesis by simp
qed

text \<open>Two records of account 42 with \<^verbatim>\<open>created_at\<close> 100 and 200.\<close>

lemma two_records_selected:
  "load_all [(''a1'', Valid task_a), (''b2'', Valid task_b)]
     = [(''a1'', task_a), (''b2'', task_b)]"
  "select_tasks (group_by_tg_id [(''a1'', task_a), (''b2'', task_b)]) = ([''b2''], [''a1''])"
  "newest_uuid (members_of [(''a1'', task_a), (''b2'', task_b)] 42) = ''b2''"
  by (simp_all add: load_all_def group_by_tg_id_def select_tasks_def set_add_def Let_def
      newest_uuid_def members_of_def task_a_def task_b_def)

lemma initialize_two_records:
  "unlink_ok w = unlink_ok example_world \<or> unlink_ok w = unlink_ok world_unlink_fails \<Longrightarrow>
   localnow w = 1000 \<Longrightarrow> entropy w ''b2'' = 7 \<Longrightarrow>
   initialize example_config w (new_manager [(''a1'', Valid task_a), (''b2'', Valid task_b)])
   = (Inr (),
      \<lparr>sessions = [''b2'' \<mapsto> task_b], tg_id_to_uuid = [42 \<mapsto> ''b2''],
       files = (if unlink_ok w ''a1'' then [(''b2'', Valid task_b)]
                else [(''a1'', Valid task_a), (''b2'', Valid task_b)]),
       jobs = [''b2'' \<mapsto> 87407],
       trace = JobAdded ''b2'' 86407 # Sent (SendCleanup 7 ''a1'' ReplacedByNewTask)
                 # (if unlink_ok w ''a1'' then [FileDeleted ''a1''] else [])\<rparr>)"
proof -
  assume l: "localnow w = 1000" and e: "entropy w ''b2'' = 7"
  have u: "uuid task_b = ''b2''" "tg_id task_b = 42" "notify_chat_id task_a = 7"
    by (simp_all add: task_a_def task_b_def)
  have c: "calculate_next_interval example_config 7 = Inr 86407"
    by (simp add: calculate_next_interval_def randint_def example_config_def)
  show ?thesis
    by (simp add: initialize_def new_manager_def two_records_selected Let_def
        start_heartbeat_def add_job_def emit_def unlink_file_def u c l e)
qed

theorem startup_keeps_newest_witness:
  "fst (initialize example_config example_world
          (new_manager [(''a1'', Valid task_a), (''b2'', Valid task_b)])) = Inr ()
   \<and> created_at task_a < created_at task_b
   \<and> sessions (snd (initialize example_config example_world
          (new_manager [(''a1'', Valid task_a), (''b2'', Valid task_b)]))) ''b2'' = Some task_b
   \<and> sessions (snd (initialize example_config example_world
          (new_manager [(''a1'', Valid task_a), (''b2'', Valid task_b)]))) ''a1'' = None
   \<and> jobs (snd (initialize example_config example_world
          (new_manager [(''a1'', Valid task_a), (''b2'', Valid task_b)]))) ''a1'' = None
   \<and> map_of (files (snd (initialize example_config example_world
          (new_manager [(''a1'', Valid task_a), (''b2'', Valid task_b)])))) ''a1'' = None
   \<and> count_list (cleanup_uuids (new_events
          (new_manager [(''a1'', Valid task_a), (''b2'', Valid task_b)])
          (snd (initialize example_config example_world
             (new_manager [(''a1'', Valid task_a), (''b2'', Valid task_b)]))))) ''a1'' = 1
   \<and> count_list (cleanup_uuids (new_events
          (new_manager [(''a1'', Valid task_a), (''b2'', Valid task_b)])
          (snd (initialize example_config example_world
             (new_manager [(''a1'', Valid task_a), (''b2'', Valid task_b)]))))) ''b2'' = 0"
proof -
  let ?s = "new_manager [(''a1'', Valid task_a), (''b2'', Valid task_b)]"
  have j: "0 \<le> jitter_seconds example_config" by (simp add: example_config_def)
  have f: "files ?s = [(''a1'', Valid task_a), (''b2'', Valid task_b)]"
    by (simp add: new_manager_def)
  have a: "map_of (load_all (files ?s)) ''a1'' = Some task_a"
    and b: "map_of (load_all (files ?s)) ''b2'' = Some task_b"
    by (simp_all add: f two_records_selected)
  have k: "newest_uuid (members_of (load_all (files ?s)) (tg_id task_a)) = ''b2''"
    "newest_uuid (members_of (load_all (files ?s)) (tg_id task_b)) = ''b2''"
  proof -
    have t: "tg_id task_a = 42" "tg_id task_b = 42" by (simp_all add: task_a_def task_b_def)
    show "newest_uuid (members_of (load_all (files ?s)) (tg_id task_a)) = ''b2''"
      by (simp only: f two_records_selected t)
    show "newest_uuid (members_of (load_all (files ?s)) (tg_id task_b)) = ''b2''"
      by (simp only: f two_records_selected t)
  qed
  have e: "sessions ?s ''a1'' = None" "jobs ?s ''a1'' = None" "unlink_ok example_world ''a1''"
    "created_at task_a < created_at task_b"
    by (simp_all add: new_manager_def example_world_def task_a_def task_b_def)
  show ?thesis
    using startup_keeps_newest [OF j a, of example_world]
      startup_keeps_newest [OF j b, of example_world] k e
    by simp
qed

text \<open>
  The same two records when the unlink fails: the older record gets its cleanup
  notification and does not become live, and its file is still there.
\<close>

theorem startup_unlink_failure_leaves_file:
  "sessions (snd (initialize example_config world_unlink_fails
          (new_manager [(''a1'', Valid task_a), (''b2'', Valid task_b)]))) ''b2'' = Some task_b
   \<and> sessions (snd (initialize example_config world_unlink_fails
          (new_manager [(''a1'', Valid task_a), (''b2'', Valid task_b)]))) ''a1'' = None
   \<and> cleanup_uuids (trace (snd (initialize example_config world_unlink_fails
          (new_manager [(''a1'', Valid task_a), (''b2'', Valid task_b)])))) = [''a1'']
   \<and> map_of (files (snd (initialize example_config world_unlink_fails
          (new_manager [(''a1'', Valid task_a), (''b2'', Valid task_b)])))) ''a1''
       = Some (Valid task_a)"
proof -
  have w: "localnow world_unlink_fails = 1000" "entropy world_unlink_fails ''b2'' = 7"
    "\<not> unlink_ok world_unlink_fails ''a1''"
    by (simp_all add: world_unlink_fails_def example_world_def)
  show ?thesis
    using w by (simp add: initialize_two_records)
qed

section \<open>The invariant in every reachable state\<close>

lemma one_task_per_account_initialize:
  assumes "one_task_per_account s" and "sessions s = Map.empty"
  shows "one_task_per_account (snd (initialize cfg w s))"
proof -
  let ?al = "load_all (files s)"
  obtain keep del where sel: "select_tasks (group_by_tg_id ?al) = (keep, del)"
    by (cases "select_tasks (group_by_tg_id ?al)")
  have dk: "distinct keep" using select_tasks_distinct(1) [of ?al] sel by simp
  have pair: "\<And>u1 u2 d1 d2. u1 \<in> set keep \<Longrightarrow> u2 \<in> set keep \<Longrightarrow> u1 \<noteq> u2 \<Longrightarrow>
           map_of ?al u1 = Some d1 \<Longrightarrow> map_of ?al u2 = Some d2 \<Longrightarrow> tg_id d1 \<noteq> tg_id d2"
    using keep_different_tg_id [OF load_all_distinct, of _ "files s"] sel by simp
  have room: "\<And>v e u d. sessions s v = Some e \<Longrightarrow> u \<in> set keep \<Longrightarrow> map_of ?al u = Some d \<Longrightarrow>
           tg_id e \<noteq> tg_id d"
    using assms(2) by simp
  have ad: "one_task_per_account (snd (admit_all cfg w ?al s keep))"
    using assms(1) dk pair room by (rule one_task_per_account_admit_all)
  obtain r s1 where a: "admit_all cfg w ?al s keep = (r, s1)"
    by (cases "admit_all cfg w ?al s keep")
  with ad have s1: "one_task_per_account s1" by simp
  have "one_task_per_account (snd (discard_all w ?al s1 del))"
    using s1 by (rule one_task_per_account_frame [rotated 2]) simp_all
  with sel a s1 show ?thesis
    by (cases r) (simp_all add: initialize_def Let_def)
qed

lemma one_task_per_account_new_manager: "one_task_per_account (new_manager fs)"
  by (simp add: one_task_per_account_def new_manager_def)

lemma reachable_one_task_per_account: "reachable cfg s \<Longrightarrow> one_task_per_account s"
proof (induction rule: reachable.induct)
  case (constructed fs)
  show ?case by (rule one_task_per_account_new_manager)
next
  case (initialized s w)
  then show ?case by (simp add: one_task_per_account_initialize)
next
  case (created s w validate session chat)
  then show ?case by (simp add: one_task_per_account_create)
next
  case (cleaned s w u r)
  then show ?case by (simp add: one_task_per_account_cleanup)
next
  case (fired s w heartbeat u)
  then show ?case by (simp add: one_task_per_account_reschedule)
qed

text \<open>Every operation stores a task under the uuid the task carries.\<close>

lemma keyed_by_uuid_frame:
  "keyed_by_uuid s \<Longrightarrow> sessions s' = sessions s \<Longrightarrow> keyed_by_uuid s'"
  by (simp add: keyed_by_uuid_def)

lemma keyed_by_uuid_cleanup: "keyed_by_uuid s \<Longrightarrow> keyed_by_uuid (cleanup_task w s u r)"
  by (simp add: keyed_by_uuid_def cleanup_task_sessions)

lemma keyed_by_uuid_insert:
  "keyed_by_uuid s \<Longrightarrow> uuid d = u \<Longrightarrow> sessions s' = (sessions s)(u \<mapsto> d) \<Longrightarrow> keyed_by_uuid s'"
  by (simp add: keyed_by_uuid_def)

lemma keyed_by_uuid_handle_success:
  assumes "keyed_by_uuid s"
  shows "keyed_by_uuid (snd (handle_success w s u))"
proof (cases "sessions s u")
  case None
  with assms show ?thesis by (simp add: handle_success_def)
next
  case (Some d)
  let ?d = "d\<lparr>consecutive_failures := 0, last_heartbeat := Some (utcnow w)\<rparr>"
  let ?s1 = "s\<lparr>sessions := (sessions s)(u \<mapsto> ?d)\<rparr>"
  have "uuid d = u" using assms Some by (simp add: keyed_by_uuid_def)
  then have s1: "keyed_by_uuid ?s1"
    using assms by (simp add: keyed_by_uuid_def)
  obtain r2 s2 where sv: "save_session_file w ?s1 ?d = (r2, s2)"
    by (cases "save_session_file w ?s1 ?d")
  have "sessions s2 = sessions ?s1"
    using arg_cong [OF sv, of "\<lambda>p. sessions (snd p)"] by simp
  with s1 have s2: "keyed_by_uuid s2" by (rule keyed_by_uuid_frame)
  then have "keyed_by_uuid (emit [Sent (SendSuccess (notify_chat_id ?d) u)] s2)"
    by (rule keyed_by_uuid_frame) simp
  with Some sv s2 show ?thesis
    by (cases r2) (simp_all add: handle_success_def Let_def)
qed

lemma keyed_by_uuid_handle_failure:
  assumes "keyed_by_uuid s"
  shows "keyed_by_uuid (snd (handle_failure cfg w s u err))"
proof (cases "sessions s u")
  case None
  with assms show ?thesis by (simp add: handle_failure_def)
next
  case (Some d)
  let ?d = "d\<lparr>consecutive_failures := consecutive_failures d + 1\<rparr>"
  let ?s1 = "s\<lparr>sessions := (sessions s)(u \<mapsto> ?d)\<rparr>"
  have "uuid d = u" using assms Some by (simp add: keyed_by_uuid_def)
  then have s1: "keyed_by_uuid ?s1"
    using assms by (simp add: keyed_by_uuid_def)
  obtain r2 s2 where sv: "save_session_file w ?s1 ?d = (r2, s2)"
    by (cases "save_session_file w ?s1 ?d")
  have "sessions s2 = sessions ?s1"
    using arg_cong [OF sv, of "\<lambda>p. sessions (snd p)"] by simp
  with s1 have s2: "keyed_by_uuid s2" by (rule keyed_by_uuid_frame)
  then have s3: "keyed_by_uuid (emit [Sent (SendFailure (notify_chat_id ?d) u err)] s2)"
    by (rule keyed_by_uuid_frame) simp
  then have "keyed_by_uuid
      (cleanup_task w (emit [Sent (SendFailure (notify_chat_id ?d) u err)] s2) u
         (ConsecutiveFailures (max_failures cfg)))"
    by (rule keyed_by_uuid_cleanup)
  with Some sv s2 s3 show ?thesis
    by (cases r2) (simp_all add: handle_failure_def Let_def)
qed

lemma keyed_by_uuid_execute_heartbeat:
  assumes "keyed_by_uuid s"
  shows "keyed_by_uuid (snd (execute_heartbeat cfg w heartbeat s u))"
proof (cases "sessions s u")
  case None
  with assms show ?thesis by (simp add: execute_heartbeat_def)
next
  case (Some d)
  obtain r evs where h: "handle_telegram_errors heartbeat = (r, evs)"
    by (cases "handle_telegram_errors heartbeat")
  have s1: "keyed_by_uuid (emit evs s)" using assms by (rule keyed_by_uuid_frame) simp
  show ?thesis
  proof (cases r)
    case (Inl e)
    with Some h show ?thesis
      using keyed_by_uuid_handle_failure [OF s1, of cfg w u e]
      by (simp add: execute_heartbeat_def)
  next
    case (Inr b)
    let ?first = "if b then handle_success w (emit evs s) u
                  else handle_failure cfg w (emit evs s) u (PyException ''Heartbeat returned False'')"
    have first: "keyed_by_uuid (snd ?first)"
      using s1 by (simp add: keyed_by_uuid_handle_success keyed_by_uuid_handle_failure)
    obtain r1 s2 where f: "?first = (r1, s2)" by (cases ?first)
    with first have s2: "keyed_by_uuid s2" by simp
    show ?thesis
    proof (cases r1)
      case (Inl e)
      with Some h Inr f show ?thesis
        using keyed_by_uuid_handle_failure [OF s2, of cfg w u e]
        by (simp add: execute_heartbeat_def)
    next
      case (Inr x)
      with Some h \<open>r = Inr b\<close> f s2 show ?thesis
        by (simp add: execute_heartbeat_def)
    qed
  qed
qed

lemma keyed_by_uuid_reschedule:
  assumes "keyed_by_uuid s"
  shows "keyed_by_uuid (snd (execute_heartbeat_and_reschedule cfg w heartbeat s u))"
proof -
  obtain r s1 where e: "execute_heartbeat cfg w heartbeat s u = (r, s1)"
    by (cases "execute_heartbeat cfg w heartbeat s u")
  then have s1: "keyed_by_uuid s1"
    using keyed_by_uuid_execute_heartbeat [OF assms, of cfg w heartbeat u] by simp
  have "\<And>iv. keyed_by_uuid (add_job w s1 u iv)"
    using s1 by (rule keyed_by_uuid_frame) simp
  with e s1 show ?thesis
    by (auto simp add: execute_heartbeat_and_reschedule_def split: sum.splits option.splits)
qed

lemma keyed_by_uuid_create:
  assumes "keyed_by_uuid s"
  shows "keyed_by_uuid (snd (create_task cfg w validate s session chat))"
proof -
  obtain r evs where h: "handle_telegram_errors validate = (r, evs)"
    by (cases "handle_telegram_errors validate")
  have s0: "keyed_by_uuid (emit evs s)" using assms by (rule keyed_by_uuid_frame) simp
  show ?thesis
  proof (cases r)
    case (Inl e)
    with h s0 show ?thesis by (simp add: create_task_def)
  next
    case (Inr tg)
    let ?s1 = "replace_existing w (emit evs s) tg"
    let ?d = "\<lparr>uuid = uuid4 w, tg_id = tg, session_string = session,
               notify_chat_id = chat, consecutive_failures = 0,
               created_at = utcnow w, last_heartbeat = None\<rparr>"
    have s1: "keyed_by_uuid ?s1"
      using s0 by (simp add: replace_existing_def keyed_by_uuid_cleanup split: option.splits)
    obtain r2 s2 where sv: "save_session_file w ?s1 ?d = (r2, s2)"
      by (cases "save_session_file w ?s1 ?d")
    have "sessions s2 = sessions ?s1"
      using arg_cong [OF sv, of "\<lambda>p. sessions (snd p)"] by simp
    with s1 have s2: "keyed_by_uuid s2" by (rule keyed_by_uuid_frame)
    let ?s3 = "s2\<lparr>sessions := (sessions s2)(uuid4 w \<mapsto> ?d),
                   tg_id_to_uuid := (tg_id_to_uuid s2)(tg \<mapsto> uuid4 w)\<rparr>"
    have s3: "keyed_by_uuid ?s3" using s2 by (simp add: keyed_by_uuid_def)
    obtain r4 s4 where st: "start_heartbeat cfg w ?s3 (uuid4 w) = (r4, s4)"
      by (cases "start_heartbeat cfg w ?s3 (uuid4 w)")
    have "sessions s4 = sessions ?s3"
      using arg_cong [OF st, of "\<lambda>p. sessions (snd p)"] by simp
    with s3 have s4: "keyed_by_uuid s4" by (rule keyed_by_uuid_frame)
    show ?thesis
      using h Inr s1 sv s2 st s4
      by (cases r2; cases r4) (simp_all add: create_task_def Let_def)
  qed
qed

lemma keyed_by_uuid_admit_all:
  "keyed_by_uuid s \<Longrightarrow> keyed_by_uuid (snd (admit_all cfg w al s us))"
proof (induction us arbitrary: s)
  case Nil
  then show ?case by simp
next
  case (Cons u us)
  show ?case
  proof (cases "map_of al u")
    case None
    with Cons.prems show ?thesis by simp
  next
    case (Some d)
    let ?s1 = "s\<lparr>sessions := (sessions s)(uuid d \<mapsto> d),
                   tg_id_to_uuid := (tg_id_to_uuid s)(tg_id d \<mapsto> uuid d)\<rparr>"
    have s1: "keyed_by_uuid ?s1" using Cons.prems by (simp add: keyed_by_uuid_def)
    obtain r2 s2 where st: "start_heartbeat cfg w ?s1 (uuid d) = (r2, s2)"
      by (cases "start_heartbeat cfg w ?s1 (uuid d)")
    have "sessions s2 = sessions ?s1"
      using arg_cong [OF st, of "\<lambda>p. sessions (snd p)"] by simp
    with s1 have s2: "keyed_by_uuid s2" by (rule keyed_by_uuid_frame)
    show ?thesis
      using Some st s2 Cons.IH [OF s2]
      by (cases r2) (simp_all add: Let_def)
  qed
qed

lemma keyed_by_uuid_initialize:
  assumes "keyed_by_uuid s"
  shows "keyed_by_uuid (snd (initialize cfg w s))"
proof -
  let ?al = "load_all (files s)"
  obtain keep del where sel: "select_tasks (group_by_tg_id ?al) = (keep, del)"
    by (cases "select_tasks (group_by_tg_id ?al)")
  obtain r s1 where a: "admit_all cfg w ?al s keep = (r, s1)"
    by (cases "admit_all cfg w ?al s keep")
  have s1: "keyed_by_uuid s1"
    using keyed_by_uuid_admit_all [OF assms, of cfg w ?al keep] a by simp
  have "keyed_by_uuid (snd (discard_all w ?al s1 del))"
    using s1 by (rule keyed_by_uuid_frame) simp
  with sel a s1 show ?thesis
    by (cases r) (simp_all add: initialize_def Let_def)
qed

lemma reachable_keyed_by_uuid: "reachable cfg s \<Longrightarrow> keyed_by_uuid s"
proof (induction rule: reachable.induct)
  case (constructed fs)
  show ?case by (simp add: keyed_by_uuid_def new_manager_def)
next
  case (initialized s w)
  then show ?case by (simp add: keyed_by_uuid_initialize)
next
  case (created s w validate session chat)
  then show ?case by (simp add: keyed_by_uuid_create)
next
  case (cleaned s w u r)
  then show ?case by (simp add: keyed_by_uuid_cleanup)
next
  case (fired s w heartbeat u)
  then show ?case by (simp add: keyed_by_uuid_reschedule)
qed

lemma create_task_inserts:
  assumes "handle_telegram_errors validate = (Inr tg, evs)"
    and "fst (create_task cfg w validate s session chat) = Inr k"
  shows "k = uuid4 w
       \<and> sessions (snd (create_task cfg w validate s session chat))
           = (sessions (replace_existing w (emit evs s) tg))
               (k \<mapsto> \<lparr>uuid = k, tg_id = tg, session_string = session, notify_chat_id = chat,
                       consecutive_failures = 0, created_at = utcnow w, last_heartbeat = None\<rparr>)
       \<and> tg_id_to_uuid (snd (create_task cfg w validate s session chat))
           = (tg_id_to_uuid (replace_existing w (emit evs s) tg))(tg \<mapsto> k)"
proof -
  let ?s1 = "replace_existing w (emit evs s) tg"
  let ?d = "\<lparr>uuid = uuid4 w, tg_id = tg, session_string = session,
             notify_chat_id = chat, consecutive_failures = 0,
             created_at = utcnow w, last_heartbeat = None\<rparr>"
  obtain r2 s2 where sv: "save_session_file w ?s1 ?d = (r2, s2)"
    by (cases "save_session_file w ?s1 ?d")
  have fr: "sessions s2 = sessions ?s1" "tg_id_to_uuid s2 = tg_id_to_uuid ?s1"
    using save_session_file_frame [of w ?s1 ?d] sv by simp_all
  let ?s3 = "s2\<lparr>sessions := (sessions s2)(uuid4 w \<mapsto> ?d),
                 tg_id_to_uuid := (tg_id_to_uuid s2)(tg \<mapsto> uuid4 w)\<rparr>"
  obtain r4 s4 where st: "start_heartbeat cfg w ?s3 (uuid4 w) = (r4, s4)"
    by (cases "start_heartbeat cfg w ?s3 (uuid4 w)")
  have fr4: "sessions s4 = sessions ?s3" "tg_id_to_uuid s4 = tg_id_to_uuid ?s3"
    using start_heartbeat_frame [of cfg w ?s3 "uuid4 w"] st by simp_all
  have nb: "\<not> blank session"
    using assms by (auto simp add: create_task_def Let_def)
  obtain x2 where r2: "r2 = Inr x2"
    using assms nb sv by (cases r2) (auto simp add: create_task_def Let_def)
  obtain x4 where r4: "r4 = Inr x4"
    using assms nb sv r2 st by (cases r4) (auto simp add: create_task_def Let_def)
  have run: "create_task cfg w validate s session chat = (Inr (uuid4 w), s4)"
    using assms(1) nb sv r2 st r4 by (simp add: create_task_def Let_def)
  with assms(2) have k: "k = uuid4 w" by simp
  show ?thesis unfolding run k using fr fr4 by simp
qed

text \<open>
  C1. The claim: in every state reachable by any sequence of \<^verbatim>\<open>initialize\<close>,
  \<^verbatim>\<open>create_task\<close> and \<^verbatim>\<open>cleanup_task\<close>, live tasks have pairwise different \<^verbatim>\<open>tg_id\<close> and
  \<^verbatim>\<open>tg_id_to_uuid\<close> sends each of them to the uuid of its task. \<^verbatim>\<open>initialize\<close> adds the
  survivors it finds on disk to whatever is live, without looking at \<^verbatim>\<open>sessions\<close>; run
  while a task is live it can add a second task of the same account. What holds: the
  invariant in every state reached from a constructed manager by \<^verbatim>\<open>create_task\<close>,
  \<^verbatim>\<open>cleanup_task\<close> and fired heartbeat jobs in any order and environment, with
  \<^verbatim>\<open>initialize\<close> run only while no task is live; and in such a state, once \<^verbatim>\<open>create_task\<close>
  has cleaned up the task that the reverse index names for the account, no live task of
  that account is left and the invariant holds, and a \<^verbatim>\<open>create_task\<close> that returns a
  uuid has added exactly the new task, under that uuid, to that intermediate state.
\<close>

theorem one_live_task_per_account:
  assumes "reachable cfg s"
  shows "(\<forall>u1 u2 d1 d2. sessions s u1 = Some d1 \<and> sessions s u2 = Some d2 \<and> u1 \<noteq> u2
            \<longrightarrow> tg_id d1 \<noteq> tg_id d2)
       \<and> (\<forall>u d. sessions s u = Some d \<longrightarrow> tg_id_to_uuid s (tg_id d) = Some u)
       \<and> (\<forall>u d. sessions (replace_existing w (emit evs s) tg) u = Some d \<longrightarrow> tg_id d \<noteq> tg)
       \<and> one_task_per_account (replace_existing w (emit evs s) tg)
       \<and> (handle_telegram_errors validate = (Inr tg, evs)
            \<and> fst (create_task cfg w validate s session chat) = Inr k \<longrightarrow>
          k = uuid4 w
          \<and> sessions (snd (create_task cfg w validate s session chat))
              = (sessions (replace_existing w (emit evs s) tg))
                  (k \<mapsto> \<lparr>uuid = k, tg_id = tg, session_string = session, notify_chat_id = chat,
                          consecutive_failures = 0, created_at = utcnow w,
                          last_heartbeat = None\<rparr>)
          \<and> tg_id_to_uuid (snd (create_task cfg w validate s session chat))
              = (tg_id_to_uuid (replace_existing w (emit evs s) tg))(tg \<mapsto> k))"
proof -
  from assms have inv: "one_task_per_account s" by (rule reachable_one_task_per_account)
  then have inv0: "one_task_per_account (emit evs s)" by (rule one_task_per_account_emit)
  have one: "(\<forall>u1 u2 d1 d2. sessions s u1 = Some d1 \<and> sessions s u2 = Some d2 \<and> u1 \<noteq> u2
            \<longrightarrow> tg_id d1 \<noteq> tg_id d2)
       \<and> (\<forall>u d. sessions s u = Some d \<longrightarrow> tg_id_to_uuid s (tg_id d) = Some u)"
    using inv unfolding one_task_per_account_def .
  have two: "\<forall>u d. sessions (replace_existing w (emit evs s) tg) u = Some d \<longrightarrow> tg_id d \<noteq> tg"
    using replace_existing_makes_room [OF inv0] by blast
  have three: "one_task_per_account (replace_existing w (emit evs s) tg)"
    using inv0 by (rule one_task_per_account_replace_existing)
  have four: "handle_telegram_errors validate = (Inr tg, evs)
            \<and> fst (create_task cfg w validate s session chat) = Inr k \<longrightarrow>
          k = uuid4 w
          \<and> sessions (snd (create_task cfg w validate s session chat))
              = (sessions (replace_existing w (emit evs s) tg))
                  (k \<mapsto> \<lparr>uuid = k, tg_id = tg, session_string = session, notify_chat_id = chat,
                          consecutive_failures = 0, created_at = utcnow w,
                          last_heartbeat = None\<rparr>)
          \<and> tg_id_to_uuid (snd (create_task cfg w validate s session chat))
              = (tg_id_to_uuid (replace_existing w (emit evs s) tg))(tg \<mapsto> k)"
    using create_task_inserts [of validate tg evs cfg w s session chat k] by blast
  from one two three four show ?thesis by blast
qed

lemma create_after_startup:
  "create_task example_config example_world validate_42
     \<lparr>sessions = [''b2'' \<mapsto> task_b], tg_id_to_uuid = [42 \<mapsto> ''b2''],
      files = [(''b2'', Valid task_b)], jobs = [''b2'' \<mapsto> 87407],
      trace = [JobAdded ''b2'' 86407, Sent (SendCleanup 7 ''a1'' ReplacedByNewTask),
               FileDeleted ''a1'']\<rparr> ''1CQAAA'' 9
   = (Inr ''c3'',
      \<lparr>sessions = [''c3'' \<mapsto> task_c], tg_id_to_uuid = [42 \<mapsto> ''c3''],
       files = [(''c3'', Valid task_c)], jobs = [''c3'' \<mapsto> 87407],
       trace = [JobAdded ''b2'' 86407, Sent (SendCleanup 7 ''a1'' ReplacedByNewTask),
                FileDeleted ''a1'', FuncCalled, Sent (SendCleanup 8 ''b2'' ReplacedByNewTask),
                JobRemoved ''b2'', FileDeleted ''b2'', FileWritten ''c3'',
                JobAdded ''c3'' 86407]\<rparr>)"
proof -
  have b: "notify_chat_id task_b = 8" "tg_id task_b = 42" "uuid task_c = ''c3''"
    by (simp_all add: task_b_def task_c_def)
  have c: "calculate_next_interval example_config (entropy example_world ''c3'') = Inr 86407"
    by (simp add: calculate_next_interval_def randint_def example_config_def example_world_def)
  have w: "uuid4 example_world = ''c3''" "utcnow example_world = 1000"
    "localnow example_world = 1000" "unlink_ok example_world ''b2''"
    "write_result example_world ''c3'' = Written"
    by (simp_all add: example_world_def)
  have v: "handle_telegram_errors validate_42 = (Inr 42, [FuncCalled])"
    by (simp add: handle_telegram_errors_def validate_42_def)
  have nb: "\<not> blank ''1CQAAA''" by (simp add: blank_def is_space_def)
  have d: "\<lparr>uuid = ''c3'', tg_id = 42, session_string = ''1CQAAA'', notify_chat_id = 9,
             consecutive_failures = 0, created_at = 1000, last_heartbeat = None\<rparr> = task_c"
    by (simp add: task_c_def)
  show ?thesis
    by (simp add: create_task_def v nb w Let_def replace_existing_def cleanup_task_def
        stop_heartbeat_def unlink_file_def save_session_file_def start_heartbeat_def
        add_job_def emit_def b c d)
qed

theorem one_live_task_per_account_witness:
  "reachable example_config
     (snd (create_task example_config example_world validate_42
        (snd (initialize example_config example_world
           (new_manager [(''a1'', Valid task_a), (''b2'', Valid task_b)]))) ''1CQAAA'' 9))
   \<and> one_task_per_account
     (snd (create_task example_config example_world validate_42
        (snd (initialize example_config example_world
           (new_manager [(''a1'', Valid task_a), (''b2'', Valid task_b)]))) ''1CQAAA'' 9))
   \<and> sessions
     (snd (create_task example_config example_world validate_42
        (snd (initialize example_config example_world
           (new_manager [(''a1'', Valid task_a), (''b2'', Valid task_b)]))) ''1CQAAA'' 9))
     = [''c3'' \<mapsto> task_c]
   \<and> tg_id_to_uuid
     (snd (create_task example_config example_world validate_42
        (snd (initialize example_config example_world
           (new_manager [(''a1'', Valid task_a), (''b2'', Valid task_b)]))) ''1CQAAA'' 9))
     = [42 \<mapsto> ''c3'']"
proof -
  let ?s0 = "new_manager [(''a1'', Valid task_a), (''b2'', Valid task_b)]"
  let ?s1 = "snd (initialize example_config example_world ?s0)"
  let ?s2 = "snd (create_task example_config example_world validate_42 ?s1 ''1CQAAA'' 9)"
  have "reachable example_config ?s0" by (rule reachable.constructed)
  moreover have "sessions ?s0 = Map.empty" by (simp add: new_manager_def)
  ultimately have "reachable example_config ?s1" by (rule reachable.initialized)
  then have r: "reachable example_config ?s2" by (rule reachable.created)
  have w: "localnow example_world = 1000" "entropy example_world ''b2'' = 7"
    "unlink_ok example_world ''a1''"
    by (simp_all add: example_world_def)
  have s1: "?s1 = \<lparr>sessions = [''b2'' \<mapsto> task_b], tg_id_to_uuid = [42 \<mapsto> ''b2''],
      files = [(''b2'', Valid task_b)], jobs = [''b2'' \<mapsto> 87407],
      trace = [JobAdded ''b2'' 86407, Sent (SendCleanup 7 ''a1'' ReplacedByNewTask),
               FileDeleted ''a1'']\<rparr>"
    using w by (simp add: initialize_two_records)
  have s2: "sessions ?s2 = [''c3'' \<mapsto> task_c]" "tg_id_to_uuid ?s2 = [42 \<mapsto> ''c3'']"
    by (simp_all only: s1 create_after_startup snd_conv manager.simps)
  have "one_task_per_account ?s2"
    using one_live_task_per_account [OF r] by (simp add: one_task_per_account_def)
  with r s2 show ?thesis by simp
qed

text \<open>
  A manager constructed over a directory that holds a record of account 42 with
  \<^verbatim>\<open>created_at\<close> 2000; \<^verbatim>\<open>create_task\<close> for account 42 at time 1000, then \<^verbatim>\<open>initialize\<close>:
  both records are live.
\<close>

lemma create_on_stale_directory:
  "create_task example_config example_world validate_42
     (new_manager [(''a1'', Valid task_late)]) ''1CQAAA'' 9
   = (Inr ''c3'',
      \<lparr>sessions = [''c3'' \<mapsto> task_c], tg_id_to_uuid = [42 \<mapsto> ''c3''],
       files = [(''a1'', Valid task_late), (''c3'', Valid task_c)],
       jobs = [''c3'' \<mapsto> 87407],
       trace = [FuncCalled, FileWritten ''c3'', JobAdded ''c3'' 86407]\<rparr>)"
  by (simp add: create_task_def handle_telegram_errors_def validate_42_def Let_def
      replace_existing_def save_session_file_def start_heartbeat_def add_job_def
      calculate_next_interval_def randint_def emit_def blank_def is_space_def
      new_manager_def task_late_def task_a_def task_c_def example_world_def example_config_def)

lemma select_on_stale_directory:
  "load_all [(''a1'', Valid task_late), (''c3'', Valid task_c)]
     = [(''a1'', task_late), (''c3'', task_c)]"
  "select_tasks (group_by_tg_id [(''a1'', task_late), (''c3'', task_c)]) = ([''a1''], [''c3''])"
  by (simp_all add: load_all_def group_by_tg_id_def select_tasks_def set_add_def Let_def
      task_late_def task_a_def task_c_def)

lemma initialize_on_stale_directory:
  "initialize example_config example_world
     \<lparr>sessions = [''c3'' \<mapsto> task_c], tg_id_to_uuid = [42 \<mapsto> ''c3''],
      files = [(''a1'', Valid task_late), (''c3'', Valid task_c)],
      jobs = [''c3'' \<mapsto> 87407],
      trace = [FuncCalled, FileWritten ''c3'', JobAdded ''c3'' 86407]\<rparr>
   = (Inr (),
      \<lparr>sessions = [''c3'' \<mapsto> task_c, ''a1'' \<mapsto> task_late], tg_id_to_uuid = [42 \<mapsto> ''a1''],
       files = [(''a1'', Valid task_late)],
       jobs = [''c3'' \<mapsto> 87407, ''a1'' \<mapsto> 87407],
       trace = [FuncCalled, FileWritten ''c3'', JobAdded ''c3'' 86407, JobAdded ''a1'' 86407,
                Sent (SendCleanup 9 ''c3'' ReplacedByNewTask), FileDeleted ''c3'']\<rparr>)"
proof -
  have u: "uuid task_late = ''a1''" "tg_id task_late = 42" "notify_chat_id task_c = 9"
    by (simp_all add: task_late_def task_a_def task_c_def)
  have c: "calculate_next_interval example_config (entropy example_world ''a1'') = Inr 86407"
    by (simp add: calculate_next_interval_def randint_def example_config_def example_world_def)
  have l: "localnow example_world = 1000" "unlink_ok example_world ''c3''"
    by (simp_all add: example_world_def)
  show ?thesis
    by (simp add: initialize_def select_on_stale_directory Let_def start_heartbeat_def
        add_job_def emit_def unlink_file_def u c l)
qed

theorem initialize_after_create_two_live_tasks:
  "sessions (snd (initialize example_config example_world
      (snd (create_task example_config example_world validate_42
              (new_manager [(''a1'', Valid task_late)]) ''1CQAAA'' 9)))) ''a1'' = Some task_late
   \<and> sessions (snd (initialize example_config example_world
      (snd (create_task example_config example_world validate_42
              (new_manager [(''a1'', Valid task_late)]) ''1CQAAA'' 9)))) ''c3'' = Some task_c
   \<and> tg_id task_late = tg_id task_c \<and> ''a1'' \<noteq> ''c3''"
proof -
  have "tg_id task_late = tg_id task_c" by (simp add: task_late_def task_a_def task_c_def)
  then show ?thesis
    by (simp only: create_on_stale_directory initialize_on_stale_directory snd_conv) simp
qed

end
